theory Spec2Isabelle
  imports Complex_Main "HOL-Library.Multiset"
begin

section \<open>Data model (types.ts)\<close>

text \<open>
  Strings are byte lists holding the UTF-8 encoding of the source's strings, so the Korean
  labels of the source are written as explicit bytes. The vote counts are JavaScript
  numbers in the source; the data model fixes them to integer counts, and a count is
  modelled by the integer it holds. Where the source adds or prints counts, the rounding
  of the double addition and the printing of the number are made explicit.

  Record fields share one name space in HOL, so two fields of the source are renamed:
  \<open>ElectionPageData.totalVotes\<close> is \<open>pageTotalVotes\<close>, and
  \<open>AggregatedData.district\<close> is \<open>districtKey\<close>.
\<close>

record CandidateVote =
  candidateName :: string
  classifiedVotes :: int
  reconfirmVotes :: int
  totalVotes :: int

record ElectionPageData =
  pageNumber :: "int option"
  district :: string
  votingType :: string
  candidateVotes :: "CandidateVote list"
  validVotes :: int
  invalidVotes :: int
  pageTotalVotes :: int

section \<open>Page classifier (App.tsx, processFile, lines 62-67)\<close>

definition label_early_in :: string where
  "label_early_in =
     [CHR 0xEA, CHR 0xB4, CHR 0x80, CHR 0xEB, CHR 0x82, CHR 0xB4, CHR 0xEC, CHR 0x82, CHR 0xAC,
      CHR 0xEC, CHR 0xA0, CHR 0x84] @ '' (Early In)''"

definition label_election_day :: string where
  "label_election_day =
     [CHR 0xEC, CHR 0x84, CHR 0xA0, CHR 0xEA, CHR 0xB1, CHR 0xB0, CHR 0xEC, CHR 0x9D, CHR 0xBC]
     @ '' (Election Day)''"

definition label_early_out :: string where
  "label_early_out =
     [CHR 0xEA, CHR 0xB4, CHR 0x80, CHR 0xEC, CHR 0x99, CHR 0xB8, CHR 0xEC, CHR 0x82, CHR 0xAC,
      CHR 0xEC, CHR 0xA0, CHR 0x84] @ '' (Early Out)''"

definition label_overseas :: string where
  "label_overseas =
     [CHR 0xEC, CHR 0x9E, CHR 0xAC, CHR 0xEC, CHR 0x99, CHR 0xB8, CHR 0xED, CHR 0x88, CHR 0xAC,
      CHR 0xED, CHR 0x91, CHR 0x9C] @ '' (Overseas)''"

definition label_absentee :: string where
  "label_absentee =
     [CHR 0xEA, CHR 0xB1, CHR 0xB0, CHR 0xEC, CHR 0x86, CHR 0x8C] @ ''/'' @
     [CHR 0xEC, CHR 0x84, CHR 0xA0, CHR 0xEC, CHR 0x83, CHR 0x81] @ '' (Absentee)''"

text \<open>
  \<open>mappedType i v\<close> is the value of the variable \<open>mappedType\<close> after the chain of
  conditionals, for page index \<open>i\<close> and extractor-provided \<open>data.votingType = v\<close>.
\<close>

definition mappedType :: "int \<Rightarrow> string \<Rightarrow> string" where
  "mappedType i v =
     (if i \<ge> 1 \<and> i \<le> 26 then label_early_in
      else if i \<ge> 27 \<and> i \<le> 168 then label_election_day
      else if i = 169 then label_early_out
      else if i = 170 then label_overseas
      else if i = 171 then label_absentee
      else v)"

section \<open>Result accumulator (App.tsx, processFile and startExtraction, lines 50-95)\<close>

text \<open>
  A thrown JavaScript value is either an \<open>Error\<close> instance with its message or some
  other value; \<open>startExtraction\<close> tells the two apart with \<open>instanceof\<close>.
\<close>

datatype js_error = Error string | Thrown

text \<open>
  The external collaborators are data of the input. A page of a loaded document holds what
  \<open>pdf.getPage\<close> and \<open>renderPageToDataUrl\<close> do on it (the data URL, or a throw) and
  what the single call of \<open>extractDataFromImage\<close> on its image answers (a page record,
  or a throw). A file holds its mime type and what \<open>file.arrayBuffer\<close> and
  \<open>getDocument\<close> do on it (the pages, or a throw); \<open>pdf.numPages\<close> is the length of
  the page list.
\<close>

record pdf_page =
  render :: "js_error + string"
  extraction :: "js_error + ElectionPageData"

record input_file =
  fileType :: string
  document :: "js_error + pdf_page list"

text \<open>
  The component state, followed by three traces of the effects the code has besides its
  state: the calls of \<open>extractDataFromImage\<close> (file index and page index of each call),
  the calls of \<open>console.error\<close>, and every value passed to \<open>setProgress\<close>.
\<close>

record app_state =
  files :: "input_file list"
  results :: "ElectionPageData list"
  isProcessing :: bool
  progress :: int
  error :: "string option"
  extractCalls :: "(nat \<times> int) list"
  consoleErrors :: "(int \<times> js_error) list"
  progressUpdates :: "int list"

definition setProgress :: "int \<Rightarrow> app_state \<Rightarrow> app_state" where
  "setProgress v st = st\<lparr>progress := v, progressUpdates := progressUpdates st @ [v]\<rparr>"

text \<open>
  \<open>Math.round x\<close> is the integer nearest to \<open>x\<close>, the upper one on a tie. The four
  operations under it are IEEE double operations: each is the exact operation followed by
  the rounding \<open>fl\<close> of the result to a double, which the model takes as a parameter.
\<close>

definition js_round :: "real \<Rightarrow> int" where
  "js_round x = \<lfloor>x + 1 / 2\<rfloor>"

definition progressValue :: "(real \<Rightarrow> real) \<Rightarrow> nat \<Rightarrow> int \<Rightarrow> nat \<Rightarrow> nat \<Rightarrow> int" where
  "progressValue fl startIndex i pagesCount totalFiles =
     js_round (fl (fl (fl (real startIndex + fl (real_of_int i / real pagesCount))
                       / real totalFiles) * 100))"

text \<open>
  The page loop of \<open>processFile\<close>, \<open>for (let i = 1; i <= pagesCount; i++)\<close>: the list
  argument holds the pages \<open>i, ..., pagesCount\<close> still to do. A throw of \<open>getPage\<close> or of
  the rendering leaves the loop with the state reached so far; a throw inside the
  \<open>try\<close> block is caught and logged. The result is the thrown value, if any, and the state.
\<close>

fun page_loop ::
  "(real \<Rightarrow> real) \<Rightarrow> nat \<Rightarrow> nat \<Rightarrow> nat \<Rightarrow> int \<Rightarrow> pdf_page list \<Rightarrow> app_state
     \<Rightarrow> js_error option \<times> app_state" where
  "page_loop fl startIndex totalFiles pagesCount i [] st = (None, st)"
| "page_loop fl startIndex totalFiles pagesCount i (p # ps) st =
     (case render p of
        Inl e \<Rightarrow> (Some e, st)
      | Inr dataUrl \<Rightarrow>
          let st1 = st\<lparr>extractCalls := extractCalls st @ [(startIndex, i)]\<rparr>;
              st2 = (case extraction p of
                       Inr data \<Rightarrow>
                         st1\<lparr>results := results st1 @
                           [data\<lparr>votingType := mappedType i (votingType data),
                                 pageNumber := Some i\<rparr>]\<rparr>
                     | Inl err \<Rightarrow>
                         st1\<lparr>consoleErrors := consoleErrors st1 @ [(i, err)]\<rparr>);
              st3 = setProgress (progressValue fl startIndex i pagesCount totalFiles) st2
          in page_loop fl startIndex totalFiles pagesCount (i + 1) ps st3)"

definition processFile ::
  "(real \<Rightarrow> real) \<Rightarrow> input_file \<Rightarrow> nat \<Rightarrow> nat \<Rightarrow> app_state \<Rightarrow> js_error option \<times> app_state" where
  "processFile fl file startIndex totalFiles st =
     (if fileType file = ''application/pdf'' then
        (case document file of
           Inl e \<Rightarrow> (Some e, st)
         | Inr pages \<Rightarrow> page_loop fl startIndex totalFiles (length pages) 1 pages st)
      else (None, st))"

text \<open>
  The file loop of \<open>startExtraction\<close>, \<open>for (let i = 0; i < files.length; i++)\<close>, on the
  files \<open>i, ...\<close> still to do; a throw of \<open>processFile\<close> leaves it.
\<close>

fun file_loop ::
  "(real \<Rightarrow> real) \<Rightarrow> nat \<Rightarrow> nat \<Rightarrow> input_file list \<Rightarrow> app_state
     \<Rightarrow> js_error option \<times> app_state" where
  "file_loop fl totalFiles i [] st = (None, st)"
| "file_loop fl totalFiles i (f # fs) st =
     (case processFile fl f i totalFiles st of
        (Some e, st') \<Rightarrow> (Some e, st')
      | (None, st') \<Rightarrow> file_loop fl totalFiles (i + 1) fs st')"

definition error_text :: "js_error \<Rightarrow> string" where
  "error_text err =
     ''Extraction failed: '' @ (case err of Error message \<Rightarrow> message | Thrown \<Rightarrow> ''Unknown error'')"

text \<open>
  Lines 80-88 of \<open>startExtraction\<close>: the four resets and the file loop. The result is
  the value thrown out of the loop, if any, and the state at that moment.
\<close>

definition run_files :: "(real \<Rightarrow> real) \<Rightarrow> app_state \<Rightarrow> js_error option \<times> app_state" where
  "run_files fl st =
     (let st1 = st\<lparr>isProcessing := True\<rparr>;
          st2 = st1\<lparr>results := []\<rparr>;
          st3 = setProgress 0 st2;
          st4 = st3\<lparr>error := None\<rparr>
      in file_loop fl (length (files st)) 0 (files st) st4)"

text \<open>
  \<open>startExtraction\<close>: the guard on the empty file list, then \<open>run_files\<close> under
  \<open>try\<close>, the \<open>catch\<close> clause and the \<open>finally\<close> clause.
\<close>

definition startExtraction :: "(real \<Rightarrow> real) \<Rightarrow> app_state \<Rightarrow> app_state" where
  "startExtraction fl st =
     (if length (files st) = 0 then st
      else
        let (thrown, st5) = run_files fl st;
            st6 = (case thrown of
                     Some err \<Rightarrow> st5\<lparr>error := Some (error_text err)\<rparr>
                   | None \<Rightarrow> st5);
            st7 = st6\<lparr>isProcessing := False\<rparr>
        in setProgress 100 st7)"

section \<open>The steps of a run\<close>

text \<open>
  A run is described by the list of its steps, in the order of the two loops: for every
  file of type PDF, in input order, either one \<open>Abort\<close> when the document fails to load,
  or one step per page in ascending page order; a page whose rendering throws is an
  \<open>Abort\<close>, every other page is a \<open>Step\<close> carrying the file index, the page index, the
  page count of its file and the outcome of the extraction on it. Files of another type
  contribute no step.
\<close>

datatype step = Step nat int nat "js_error + ElectionPageData" | Abort js_error

fun is_step :: "step \<Rightarrow> bool" where
  "is_step (Step s i n r) = True"
| "is_step (Abort e) = False"

fun page_steps :: "nat \<Rightarrow> nat \<Rightarrow> int \<Rightarrow> pdf_page list \<Rightarrow> step list" where
  "page_steps s n i [] = []"
| "page_steps s n i (p # ps) =
     (case render p of Inl e \<Rightarrow> Abort e | Inr dataUrl \<Rightarrow> Step s i n (extraction p))
     # page_steps s n (i + 1) ps"

definition file_steps :: "nat \<Rightarrow> input_file \<Rightarrow> step list" where
  "file_steps s f =
     (if fileType f = ''application/pdf'' then
        (case document f of
           Inl e \<Rightarrow> [Abort e]
         | Inr pages \<Rightarrow> page_steps s (length pages) 1 pages)
      else [])"

fun run_steps :: "nat \<Rightarrow> input_file list \<Rightarrow> step list" where
  "run_steps s [] = []"
| "run_steps s (f # fs) = file_steps s f @ run_steps (s + 1) fs"

text \<open>The steps before the first \<open>Abort\<close>, and the value the first \<open>Abort\<close> throws.\<close>

definition executed :: "step list \<Rightarrow> step list" where
  "executed steps = takeWhile is_step steps"

fun first_abort :: "step list \<Rightarrow> js_error option" where
  "first_abort [] = None"
| "first_abort (Step s i n r # steps) = first_abort steps"
| "first_abort (Abort e # steps) = Some e"

text \<open>
  What a list of steps contributes: the page records of the steps whose extraction
  succeeded, one extraction call per step, one log entry per step whose extraction
  failed, and the page coordinates (file index, page index, page count) of the steps.
\<close>

fun step_records :: "step list \<Rightarrow> ElectionPageData list" where
  "step_records [] = []"
| "step_records (Step s i n (Inr data) # steps) =
     data\<lparr>votingType := mappedType i (votingType data), pageNumber := Some i\<rparr>
     # step_records steps"
| "step_records (_ # steps) = step_records steps"

fun step_calls :: "step list \<Rightarrow> (nat \<times> int) list" where
  "step_calls [] = []"
| "step_calls (Step s i n r # steps) = (s, i) # step_calls steps"
| "step_calls (Abort e # steps) = step_calls steps"

fun step_logs :: "step list \<Rightarrow> (int \<times> js_error) list" where
  "step_logs [] = []"
| "step_logs (Step s i n (Inl err) # steps) = (i, err) # step_logs steps"
| "step_logs (_ # steps) = step_logs steps"

fun step_pages :: "step list \<Rightarrow> (nat \<times> int \<times> nat) list" where
  "step_pages [] = []"
| "step_pages (Step s i n r # steps) = (s, i, n) # step_pages steps"
| "step_pages (Abort e # steps) = step_pages steps"

definition step_progress :: "(real \<Rightarrow> real) \<Rightarrow> nat \<Rightarrow> step list \<Rightarrow> int list" where
  "step_progress fl t steps = map (\<lambda>(s, i, n). progressValue fl s i n t) (step_pages steps)"

definition after_steps :: "(real \<Rightarrow> real) \<Rightarrow> nat \<Rightarrow> step list \<Rightarrow> app_state \<Rightarrow> app_state" where
  "after_steps fl t steps st =
     st\<lparr>results := results st @ step_records steps,
        extractCalls := extractCalls st @ step_calls steps,
        consoleErrors := consoleErrors st @ step_logs steps,
        progress := (if step_progress fl t steps = [] then progress st
                     else last (step_progress fl t steps)),
        progressUpdates := progressUpdates st @ step_progress fl t steps\<rparr>"

text \<open>
  The order of the pages of a run (by file, then by page inside a file), and the ranges
  of their coordinates.
\<close>

fun page_le :: "nat \<times> int \<times> nat \<Rightarrow> nat \<times> int \<times> nat \<Rightarrow> bool" where
  "page_le (s, i, n) (s', i', n') \<longleftrightarrow> s < s' \<or> (s = s' \<and> n = n' \<and> i \<le> i')"

fun page_ok :: "nat \<Rightarrow> nat \<Rightarrow> nat \<times> int \<times> nat \<Rightarrow> bool" where
  "page_ok lo hi (s, i, n) \<longleftrightarrow> lo \<le> s \<and> s < hi \<and> 1 \<le> i \<and> i \<le> int n"

section \<open>Decimal numerals\<close>

text \<open>
  The decimal numeral of a natural number, without leading zeros: what \<open>ToString\<close>
  yields for such a number below \<open>10^21\<close>.
\<close>

definition digit_char :: "nat \<Rightarrow> char" where
  "digit_char d = ''0123456789'' ! d"

fun digits :: "nat \<Rightarrow> string" where
  "digits n = (if n < 10 then [digit_char n] else digits (n div 10) @ [digit_char (n mod 10)])"

declare digits.simps [simp del]

section \<open>JavaScript numbers holding integer counts\<close>

text \<open>
  The counts are JavaScript numbers, that is IEEE doubles. A count is modelled by the
  integer it holds. \<open>a + b\<close> of the source is the exact sum rounded to a double; the
  functions that add take this rounding, \<open>fl\<close>, as a parameter. \<open>double_int\<close> is the
  rounding itself on the integers of magnitude below \<open>2^1024\<close>: to 53 significant bits,
  to the nearest, ties to the even significand. It is the identity up to \<open>2^53\<close>.
\<close>

fun ulp :: "nat \<Rightarrow> nat" where
  "ulp n = (if n < 9007199254740992 then 1 else 2 * ulp (n div 2))"

declare ulp.simps [simp del]

definition round_nat :: "nat \<Rightarrow> nat" where
  "round_nat n =
     (let u = ulp n; q = n div u; r = n mod u
      in if 2 * r > u \<or> (2 * r = u \<and> odd q) then (q + 1) * u else q * u)"

definition double_int :: "int \<Rightarrow> int" where
  "double_int x = (if x < 0 then - int (round_nat (nat (- x))) else int (round_nat (nat x)))"

text \<open>What the proofs use of a rounding: it is exact from 0 to \<open>2^53\<close>.\<close>

definition exact_counts :: "(int \<Rightarrow> int) \<Rightarrow> bool" where
  "exact_counts fl \<longleftrightarrow> (\<forall>x. 0 \<le> x \<and> x \<le> 9007199254740992 \<longrightarrow> fl x = x)"

text \<open>
  \<open>Number::toString\<close>, used by the template literals, is a parameter \<open>str\<close> of the
  exporter. For an integer of magnitude below \<open>10^21\<close> it yields the decimal numeral,
  after a minus sign when negative (\<open>number_string\<close>); from \<open>10^21\<close> on it yields an
  exponent form.
\<close>

definition number_string :: "int \<Rightarrow> string" where
  "number_string i = (if i < 0 then ''-'' @ digits (nat (- i)) else digits (nat i))"

definition prints_decimal :: "(int \<Rightarrow> string) \<Rightarrow> bool" where
  "prints_decimal str \<longleftrightarrow>
     (\<forall>i. - 1000000000000000000000 < i \<and> i < 1000000000000000000000 \<longrightarrow> str i = number_string i)"

section \<open>JavaScript objects used as dictionaries\<close>

text \<open>
  \<open>districtSummary\<close> keeps its districts, and each district its candidates, in plain
  objects created by \<open>{}\<close>. Such an object is modelled by the list of its own
  properties in creation order. Three facts of the language are visible in what the code
  computes and are part of the model:
  \<^item> assigning to an existing key keeps the key's position, assigning to a new key
    appends it (\<open>js_set\<close>);
  \<^item> reading a key that is not an own property falls through to \<open>Object.prototype\<close>,
    so for the names in \<open>object_prototype_keys\<close> the read yields an inherited function
    (for \<open>__proto__\<close> the prototype object itself), which is truthy (\<open>js_get\<close>);
  \<^item> \<open>Object.values\<close> lists the own properties whose keys are array indices first, in
    ascending numeric order, and the others after them in creation order (\<open>js_values\<close>).
\<close>

type_synonym 'v js_object = "(string \<times> 'v) list"

fun js_set :: "string \<Rightarrow> 'v \<Rightarrow> 'v js_object \<Rightarrow> 'v js_object" where
  "js_set k v [] = [(k, v)]"
| "js_set k v ((k', v') # obj) = (if k' = k then (k, v) # obj else (k', v') # js_set k v obj)"

definition object_prototype_keys :: "string list" where
  "object_prototype_keys =
     [''constructor'', ''__defineGetter__'', ''__defineSetter__'', ''hasOwnProperty'',
      ''__lookupGetter__'', ''__lookupSetter__'', ''isPrototypeOf'', ''propertyIsEnumerable'',
      ''toString'', ''valueOf'', ''__proto__'', ''toLocaleString'']"

datatype 'v js_lookup = Own 'v | Inherited | Undefined

definition js_get :: "'v js_object \<Rightarrow> string \<Rightarrow> 'v js_lookup" where
  "js_get obj k =
     (case map_of obj k of
        Some v \<Rightarrow> Own v
      | None \<Rightarrow> if k \<in> set object_prototype_keys then Inherited else Undefined)"

text \<open>
  An array index is a canonical numeric string (\<open>ToString(ToNumber(s)) = s\<close>) whose
  value is an integer from 0 to \<open>2^32 - 2\<close>. \<open>index_value\<close> reads a string of digits
  as \<open>ToNumber\<close> does; a string with any other character is not the numeral of its
  value, whatever value is read.
\<close>

definition index_value :: "string \<Rightarrow> nat" where
  "index_value s = foldl (\<lambda>a c. 10 * a + (of_char c - 48)) 0 s"

definition is_array_index :: "string \<Rightarrow> bool" where
  "is_array_index s \<longleftrightarrow> s = digits (index_value s) \<and> index_value s < 4294967295"

definition js_key_order :: "string list \<Rightarrow> string list" where
  "js_key_order ks =
     sort_key index_value (filter is_array_index ks) @ filter (\<lambda>k. \<not> is_array_index k) ks"

definition js_values :: "'v js_object \<Rightarrow> 'v list" where
  "js_values obj = List.map_filter (map_of obj) (js_key_order (map fst obj))"

section \<open>District aggregator (App.tsx, districtSummary, lines 97-119)\<close>

record CandidateTotals =
  classified :: int
  reconfirm :: int
  total :: int

record AggregatedData =
  districtKey :: string
  votesByCandidate :: "CandidateTotals js_object"
  validTotal :: int
  invalidTotal :: int
  grandTotal :: int

text \<open>
  The body of the inner \<open>forEach\<close> (lines 109-115) on the candidate object of one
  district. When the name is inherited from \<open>Object.prototype\<close> the test of line 109
  finds a truthy value, \<open>cEntry\<close> is that inherited function, and the three \<open>+=\<close> write
  properties of the function: the district's own object is left as it is.
\<close>

definition add_vote ::
  "(int \<Rightarrow> int) \<Rightarrow> CandidateTotals js_object \<Rightarrow> CandidateVote \<Rightarrow> CandidateTotals js_object" where
  "add_vote fl votes cv =
     (let votes1 =
            (case js_get votes (candidateName cv) of
               Undefined \<Rightarrow>
                 js_set (candidateName cv) \<lparr>classified = 0, reconfirm = 0, total = 0\<rparr> votes
             | _ \<Rightarrow> votes)
      in case js_get votes1 (candidateName cv) of
           Own cEntry \<Rightarrow>
             js_set (candidateName cv)
               (cEntry\<lparr>classified := fl (classified cEntry + classifiedVotes cv),
                       reconfirm := fl (reconfirm cEntry + reconfirmVotes cv),
                       total := fl (total cEntry + totalVotes cv)\<rparr>) votes1
         | _ \<Rightarrow> votes1)"

text \<open>
  The thrown value when line 109 reads a property of \<open>undefined\<close>; the text of the
  message is the engine's.
\<close>

definition TypeError :: js_error where
  "TypeError = Error ''Cannot read properties of undefined''"

definition district_key :: "ElectionPageData \<Rightarrow> string" where
  "district_key page = (if district page = [] then ''Unknown'' else district page)"

text \<open>
  The body of the outer \<open>forEach\<close> (lines 100-116). When the key is inherited from
  \<open>Object.prototype\<close>, \<open>entry\<close> is the inherited function: lines 105-107 write
  properties of that function, and line 109 reads \<open>entry.votesByCandidate\<close>, which is
  \<open>undefined\<close>, so the first candidate of the page makes it throw.
\<close>

definition add_page ::
  "(int \<Rightarrow> int) \<Rightarrow> AggregatedData js_object \<Rightarrow> ElectionPageData \<Rightarrow> js_error + AggregatedData js_object" where
  "add_page fl m page =
     (let key = district_key page;
          m1 = (case js_get m key of
                  Undefined \<Rightarrow>
                    js_set key \<lparr>districtKey = key, votesByCandidate = [], validTotal = 0,
                                invalidTotal = 0, grandTotal = 0\<rparr> m
                | _ \<Rightarrow> m)
      in case js_get m1 key of
           Own entry \<Rightarrow>
             Inr (js_set key
                    (entry\<lparr>validTotal := fl (validTotal entry + validVotes page),
                           invalidTotal := fl (invalidTotal entry + invalidVotes page),
                           grandTotal := fl (grandTotal entry + pageTotalVotes page),
                           votesByCandidate :=
                             foldl (add_vote fl) (votesByCandidate entry) (candidateVotes page)\<rparr>) m1)
         | _ \<Rightarrow> if candidateVotes page = [] then Inr m1 else Inl TypeError)"

fun add_pages ::
  "(int \<Rightarrow> int) \<Rightarrow> AggregatedData js_object \<Rightarrow> ElectionPageData list \<Rightarrow> js_error + AggregatedData js_object" where
  "add_pages fl m [] = Inr m"
| "add_pages fl m (page # pages) =
     (case add_page fl m page of Inl e \<Rightarrow> Inl e | Inr m' \<Rightarrow> add_pages fl m' pages)"

definition districtSummary ::
  "(int \<Rightarrow> int) \<Rightarrow> ElectionPageData list \<Rightarrow> js_error + AggregatedData list" where
  "districtSummary fl rs = (case add_pages fl [] rs of Inl e \<Rightarrow> Inl e | Inr m \<Rightarrow> Inr (js_values m))"

section \<open>What the aggregator is to compute\<close>

text \<open>
  The distinct elements of a list in the order of their first occurrence.
\<close>

definition first_seen :: "'a list \<Rightarrow> 'a list" where
  "first_seen xs = foldl (\<lambda>acc x. if x \<in> set acc then acc else acc @ [x]) [] xs"

definition pages_of :: "string \<Rightarrow> ElectionPageData list \<Rightarrow> ElectionPageData list" where
  "pages_of k rs = filter (\<lambda>p. district_key p = k) rs"

definition votes_of :: "string \<Rightarrow> ElectionPageData list \<Rightarrow> CandidateVote list" where
  "votes_of k rs = concat (map candidateVotes (pages_of k rs))"

definition votes_for :: "string \<Rightarrow> CandidateVote list \<Rightarrow> CandidateVote list" where
  "votes_for c cvs = filter (\<lambda>cv. candidateName cv = c) cvs"

definition candidate_sums :: "string \<Rightarrow> CandidateVote list \<Rightarrow> CandidateTotals" where
  "candidate_sums c cvs =
     \<lparr>classified = sum_list (map classifiedVotes (votes_for c cvs)),
      reconfirm = sum_list (map reconfirmVotes (votes_for c cvs)),
      total = sum_list (map totalVotes (votes_for c cvs))\<rparr>"

text \<open>
  The objects the code builds: names inherited from \<open>Object.prototype\<close> never become
  own properties.
\<close>

definition own_name :: "string \<Rightarrow> bool" where
  "own_name k \<longleftrightarrow> k \<notin> set object_prototype_keys"

definition votes_object :: "CandidateVote list \<Rightarrow> CandidateTotals js_object" where
  "votes_object cvs =
     map (\<lambda>c. (c, candidate_sums c cvs)) (first_seen (filter own_name (map candidateName cvs)))"

definition summary_of :: "ElectionPageData list \<Rightarrow> string \<Rightarrow> AggregatedData" where
  "summary_of rs k =
     \<lparr>districtKey = k,
      votesByCandidate = votes_object (votes_of k rs),
      validTotal = sum_list (map validVotes (pages_of k rs)),
      invalidTotal = sum_list (map invalidVotes (pages_of k rs)),
      grandTotal = sum_list (map pageTotalVotes (pages_of k rs))\<rparr>"

definition summary_object :: "ElectionPageData list \<Rightarrow> AggregatedData js_object" where
  "summary_object rs =
     map (\<lambda>k. (k, summary_of rs k)) (first_seen (filter own_name (map district_key rs)))"

definition throws :: "ElectionPageData list \<Rightarrow> bool" where
  "throws rs = list_ex (\<lambda>p. \<not> own_name (district_key p) \<and> candidateVotes p \<noteq> []) rs"



section \<open>Counts for which the double additions are exact\<close>

text \<open>
  The counts of a collection are in range when none is negative and, for each of the six
  count fields, the sum of the field over the whole collection is at most \<open>2^53\<close>.
\<close>

definition votes_in_range :: "CandidateVote list \<Rightarrow> bool" where
  "votes_in_range cvs \<longleftrightarrow>
     list_all (\<lambda>v. 0 \<le> classifiedVotes v \<and> 0 \<le> reconfirmVotes v \<and> 0 \<le> totalVotes v) cvs \<and>
     sum_list (map classifiedVotes cvs) \<le> 9007199254740992 \<and>
     sum_list (map reconfirmVotes cvs) \<le> 9007199254740992 \<and>
     sum_list (map totalVotes cvs) \<le> 9007199254740992"

definition counts_in_range :: "ElectionPageData list \<Rightarrow> bool" where
  "counts_in_range rs \<longleftrightarrow>
     list_all (\<lambda>p. 0 \<le> validVotes p \<and> 0 \<le> invalidVotes p \<and> 0 \<le> pageTotalVotes p) rs \<and>
     sum_list (map validVotes rs) \<le> 9007199254740992 \<and>
     sum_list (map invalidVotes rs) \<le> 9007199254740992 \<and>
     sum_list (map pageTotalVotes rs) \<le> 9007199254740992 \<and>
     votes_in_range (concat (map candidateVotes rs))"

section \<open>What the aggregator computes, with its double additions\<close>






section \<open>CSV exporter (App.tsx, downloadCSV, lines 121-153)\<close>

definition quote :: string where
  "quote = [CHR 0x22]"

definition newline :: string where
  "newline = [CHR 0x0A]"

definition byte_order_mark :: string where
  "byte_order_mark = [CHR 0xEF, CHR 0xBB, CHR 0xBF]"

definition fixed_headers :: string where
  "fixed_headers =
     [CHR 0xED, CHR 0x88, CHR 0xAC, CHR 0xED, CHR 0x91, CHR 0x9C, CHR 0xEA, CHR 0xB5, CHR 0xAC] @ '','' @
     [CHR 0xEC, CHR 0x9C, CHR 0xA0, CHR 0xED, CHR 0x98, CHR 0x95] @ '','' @
     [CHR 0xEC, CHR 0x9C, CHR 0xA0, CHR 0xED, CHR 0x9A, CHR 0xA8, CHR 0xED, CHR 0x88, CHR 0xAC,
      CHR 0xED, CHR 0x91, CHR 0x9C] @ '','' @
     [CHR 0xEB, CHR 0xAC, CHR 0xB4, CHR 0xED, CHR 0x9A, CHR 0xA8, CHR 0xED, CHR 0x88, CHR 0xAC,
      CHR 0xED, CHR 0x91, CHR 0x9C] @ '','' @
     [CHR 0xEC, CHR 0xB4, CHR 0x9D, CHR 0xEA, CHR 0xB3, CHR 0x84]"

definition suffix_classified :: string where
  "suffix_classified = ''_'' @ [CHR 0xEB, CHR 0xB6, CHR 0x84, CHR 0xEB, CHR 0xA5, CHR 0x98]"

definition suffix_reconfirm :: string where
  "suffix_reconfirm =
     ''_'' @ [CHR 0xEC, CHR 0x9E, CHR 0xAC, CHR 0xED, CHR 0x99, CHR 0x95, CHR 0xEC, CHR 0x9D, CHR 0xB8]"

definition suffix_total :: string where
  "suffix_total = ''_'' @ [CHR 0xEA, CHR 0xB3, CHR 0x84]"

definition total_label :: string where
  "total_label =
     [CHR 0xEC, CHR 0xA0, CHR 0x84, CHR 0xEC, CHR 0xB2, CHR 0xB4] @ '' '' @
     [CHR 0xED, CHR 0x95, CHR 0xA9, CHR 0xEA, CHR 0xB3, CHR 0x84]"

definition file_name :: "(int \<Rightarrow> string) \<Rightarrow> nat \<Rightarrow> string" where
  "file_name str n =
     ''21'' @ [CHR 0xEB, CHR 0x8C, CHR 0x80, CHR 0xEB, CHR 0x8C, CHR 0x80, CHR 0xEC, CHR 0x84, CHR 0xA0] @
     ''_'' @ [CHR 0xEC, CHR 0x8B, CHR 0xAC, CHR 0xEC, CHR 0x82, CHR 0xAC, CHR 0xEC, CHR 0xA7, CHR 0x91,
              CHR 0xEA, CHR 0xB3, CHR 0x84, CHR 0xEB, CHR 0xB6, CHR 0x80] @
     ''_'' @ str (int n) @ [CHR 0xEB, CHR 0xAA, CHR 0x85] @ ''.csv''"

text \<open>Lines 123-127: the header line, three columns appended per selected candidate.\<close>

definition header_cells :: "string \<Rightarrow> string" where
  "header_cells c =
     '','' @ c @ suffix_classified @ '','' @ c @ suffix_reconfirm @ '','' @ c @ suffix_total"

definition csv_headers :: "string list \<Rightarrow> string" where
  "csv_headers sel = foldl (\<lambda>headers c. headers @ header_cells c) fixed_headers sel"

text \<open>
  \<open>r.candidateVotes.find(v => v.candidateName === c)\<close> is the first entry of that name,
  and \<open>cv?.field || 0\<close> is 0 when there is none or when the field is 0.
\<close>

definition find_vote :: "string \<Rightarrow> ElectionPageData \<Rightarrow> CandidateVote option" where
  "find_vote c r = find (\<lambda>v. candidateName v = c) (candidateVotes r)"

definition or_zero :: "(CandidateVote \<Rightarrow> int) \<Rightarrow> CandidateVote option \<Rightarrow> int" where
  "or_zero field cv =
     (case cv of None \<Rightarrow> 0 | Some v \<Rightarrow> if field v = 0 then 0 else field v)"

text \<open>Lines 129-136: one line per page record.\<close>

definition row_start :: "(int \<Rightarrow> string) \<Rightarrow> ElectionPageData \<Rightarrow> string" where
  "row_start str r =
     quote @ district r @ quote @ '','' @ quote @ votingType r @ quote @ '','' @
     str (validVotes r) @ '','' @ str (invalidVotes r) @ '','' @
     str (pageTotalVotes r)"

definition row_cells :: "(int \<Rightarrow> string) \<Rightarrow> ElectionPageData \<Rightarrow> string \<Rightarrow> string" where
  "row_cells str r c =
     (let cv = find_vote c r
      in '','' @ str (or_zero classifiedVotes cv) @
         '','' @ str (or_zero reconfirmVotes cv) @
         '','' @ str (or_zero totalVotes cv))"

definition csv_row :: "(int \<Rightarrow> string) \<Rightarrow> ElectionPageData \<Rightarrow> string list \<Rightarrow> string" where
  "csv_row str r sel = foldl (\<lambda>row c. row @ row_cells str r c) (row_start str r) sel"

text \<open>
  Lines 139-146: the totals line; \<open>reduce\<close> is a left fold from 0, each step a double
  addition.
\<close>

definition total_start ::
  "(int \<Rightarrow> int) \<Rightarrow> (int \<Rightarrow> string) \<Rightarrow> ElectionPageData list \<Rightarrow> string" where
  "total_start fl str rs =
     quote @ total_label @ quote @ '','' @ quote @ quote @ '','' @
     str (foldl (\<lambda>a b. fl (a + validVotes b)) 0 rs) @ '','' @
     str (foldl (\<lambda>a b. fl (a + invalidVotes b)) 0 rs) @ '','' @
     str (foldl (\<lambda>a b. fl (a + pageTotalVotes b)) 0 rs)"

definition total_cells ::
  "(int \<Rightarrow> int) \<Rightarrow> (int \<Rightarrow> string) \<Rightarrow> ElectionPageData list \<Rightarrow> string \<Rightarrow> string" where
  "total_cells fl str rs c =
     (let s = foldl (\<lambda>acc r. fl (acc + or_zero classifiedVotes (find_vote c r))) 0 rs;
          rc = foldl (\<lambda>acc r. fl (acc + or_zero reconfirmVotes (find_vote c r))) 0 rs;
          t = foldl (\<lambda>acc r. fl (acc + or_zero totalVotes (find_vote c r))) 0 rs
      in '','' @ str s @ '','' @ str rc @ '','' @ str t)"

definition csv_total_row ::
  "(int \<Rightarrow> int) \<Rightarrow> (int \<Rightarrow> string) \<Rightarrow> ElectionPageData list \<Rightarrow> string list \<Rightarrow> string" where
  "csv_total_row fl str rs sel =
     foldl (\<lambda>totalRow c. totalRow @ total_cells fl str rs c) (total_start fl str rs) sel"

text \<open>
  The download: the bytes of the blob (the byte order mark, then the text) and the file
  name; \<open>None\<close> when the function returns at its guard.
\<close>

record csv_download =
  blob :: string
  download :: string

definition downloadCSV ::
  "(int \<Rightarrow> int) \<Rightarrow> (int \<Rightarrow> string) \<Rightarrow> ElectionPageData list \<Rightarrow> string list
     \<Rightarrow> csv_download option" where
  "downloadCSV fl str rs selectedCandidates =
     (if length rs = 0 \<or> length selectedCandidates = 0 then None
      else
        let csv0 = csv_headers selectedCandidates @ newline;
            csv1 = foldl (\<lambda>csv r. csv @ csv_row str r selectedCandidates @ newline) csv0 rs;
            csv2 = csv1 @ csv_total_row fl str rs selectedCandidates @ newline
        in Some \<lparr>blob = byte_order_mark @ csv2,
                 download = file_name str (length selectedCandidates)\<rparr>)"

section \<open>Example inputs\<close>

definition example_record :: "string \<Rightarrow> ElectionPageData" where
  "example_record d =
     \<lparr>pageNumber = None, district = d, votingType = ''from extractor'', candidateVotes = [],
      validVotes = 10, invalidVotes = 1, pageTotalVotes = 11\<rparr>"

definition good_page :: "string \<Rightarrow> pdf_page" where
  "good_page d = \<lparr>render = Inr ''data:image/png;base64,AAAA'', extraction = Inr (example_record d)\<rparr>"

definition unread_page :: pdf_page where
  "unread_page =
     \<lparr>render = Inr ''data:image/png;base64,AAAA'', extraction = Inl (Error ''No response from AI'')\<rparr>"

definition unrendered_page :: pdf_page where
  "unrendered_page = \<lparr>render = Inl (Error ''Canvas context error''), extraction = Inl Thrown\<rparr>"

definition pdf_file :: "pdf_page list \<Rightarrow> input_file" where
  "pdf_file pages = \<lparr>fileType = ''application/pdf'', document = Inr pages\<rparr>"

definition used_state :: "input_file list \<Rightarrow> app_state" where
  "used_state fs =
     \<lparr>files = fs, results = [example_record ''old''], isProcessing = False, progress = 100,
      error = Some ''old message'', extractCalls = [], consoleErrors = [], progressUpdates = []\<rparr>"

definition example_vote :: "string \<Rightarrow> int \<Rightarrow> int \<Rightarrow> int \<Rightarrow> CandidateVote" where
  "example_vote name a b t =
     \<lparr>candidateName = name, classifiedVotes = a, reconfirmVotes = b, totalVotes = t\<rparr>"

definition example_page :: "string \<Rightarrow> CandidateVote list \<Rightarrow> int \<Rightarrow> int \<Rightarrow> int \<Rightarrow> ElectionPageData" where
  "example_page d cvs v i t =
     \<lparr>pageNumber = Some 1, district = d, votingType = label_early_in, candidateVotes = cvs,
      validVotes = v, invalidVotes = i, pageTotalVotes = t\<rparr>"


section \<open>Page classifier: properties\<close>

text \<open>
  Claim C1. For every page index \<open>i\<close> and every extractor-provided voting type \<open>v\<close>, the
  classifier returns the Early In label for \<open>i\<close> in 1..26, the Election Day label for
  \<open>i\<close> in 27..168, the Early Out, Overseas and Absentee labels at 169, 170 and 171, and
  \<open>v\<close> itself for every other index (so at 0 and at 172); on 1..171 the result is the
  same for any two extractor values.
\<close>

theorem mappedType_ranges:
  "(1 \<le> i \<and> i \<le> 26 \<longrightarrow> mappedType i v = label_early_in) \<and>
   (27 \<le> i \<and> i \<le> 168 \<longrightarrow> mappedType i v = label_election_day) \<and>
   mappedType 169 v = label_early_out \<and>
   mappedType 170 v = label_overseas \<and>
   mappedType 171 v = label_absentee \<and>
   (i < 1 \<or> 171 < i \<longrightarrow> mappedType i v = v) \<and>
   mappedType 0 v = v \<and> mappedType 172 v = v \<and>
   (1 \<le> i \<and> i \<le> 171 \<longrightarrow> mappedType i v = mappedType i v')"
  by (simp add: mappedType_def)

theorem mappedType_ranges_witness:
  "mappedType 26 ''x'' = label_early_in \<and>
   mappedType 27 ''x'' = label_election_day \<and>
   mappedType 169 ''x'' = label_early_out \<and>
   mappedType 172 ''x'' = ''x'' \<and>
   mappedType 168 ''x'' = mappedType 168 ''y''"
proof -
  have "mappedType 26 ''x'' = label_early_in"
    using mappedType_ranges [of 26 "''x''"] by simp
  moreover have "mappedType 27 ''x'' = label_election_day \<and> mappedType 169 ''x'' = label_early_out"
    using mappedType_ranges [of 27 "''x''"] by simp
  moreover have "mappedType 172 ''x'' = ''x''"
    using mappedType_ranges [of 172 "''x''"] by simp
  moreover have "mappedType 168 ''x'' = mappedType 168 ''y''"
    using mappedType_ranges [of 168 "''x''" "''y''"] by auto
  ultimately show ?thesis by simp
qed

section \<open>Result accumulator: the loops follow the steps\<close>

lemma first_abort_append:
  "first_abort (a @ b) = (case first_abort a of Some e \<Rightarrow> Some e | None \<Rightarrow> first_abort b)"
  by (induction a rule: first_abort.induct) simp_all

lemma executed_append:
  "executed (a @ b) = (if first_abort a = None then a @ executed b else executed a)"
  by (induction a rule: first_abort.induct) (simp_all add: executed_def)

lemma executed_no_abort: "first_abort a = None \<Longrightarrow> executed a = a"
  by (induction a rule: first_abort.induct) (simp_all add: executed_def)

lemma executed_split: "steps = executed steps @ dropWhile is_step steps"
  by (simp add: executed_def)

lemma step_records_append: "step_records (a @ b) = step_records a @ step_records b"
  by (induction a rule: step_records.induct) simp_all

lemma step_calls_append: "step_calls (a @ b) = step_calls a @ step_calls b"
  by (induction a rule: step_calls.induct) simp_all

lemma step_logs_append: "step_logs (a @ b) = step_logs a @ step_logs b"
  by (induction a rule: step_logs.induct) simp_all

lemma step_pages_append: "step_pages (a @ b) = step_pages a @ step_pages b"
  by (induction a rule: step_pages.induct) simp_all

lemma step_progress_append:
  "step_progress fl t (a @ b) = step_progress fl t a @ step_progress fl t b"
  by (simp add: step_progress_def step_pages_append)

lemma step_calls_pages: "step_calls steps = map (\<lambda>(s, i, n). (s, i)) (step_pages steps)"
  by (induction steps rule: step_pages.induct) simp_all

lemma after_steps_Nil: "after_steps fl t [] st = st"
  by (simp add: after_steps_def step_progress_def)

lemma after_steps_append:
  "after_steps fl t (a @ b) st = after_steps fl t b (after_steps fl t a st)"
  by (simp add: after_steps_def step_records_append step_calls_append step_logs_append
      step_progress_append)

lemma page_loop_steps:
  "page_loop fl s t n i ps st =
     (first_abort (page_steps s n i ps), after_steps fl t (executed (page_steps s n i ps)) st)"
proof (induction ps arbitrary: i st)
  case Nil
  show ?case by (simp add: executed_def after_steps_Nil)
next
  case (Cons p ps)
  show ?case
  proof (cases "render p")
    case (Inl e)
    then show ?thesis by (simp add: executed_def after_steps_Nil)
  next
    case (Inr url)
    show ?thesis
    proof (cases "extraction p")
      case (Inl err)
      with Inr Cons show ?thesis
        by (simp add: executed_def after_steps_def setProgress_def step_progress_def)
    next
      case (Inr data)
      with \<open>render p = Inr url\<close> Cons show ?thesis
        by (simp add: executed_def after_steps_def setProgress_def step_progress_def)
    qed
  qed
qed

lemma processFile_steps:
  "processFile fl f s t st =
     (first_abort (file_steps s f), after_steps fl t (executed (file_steps s f)) st)"
  by (simp add: processFile_def file_steps_def page_loop_steps executed_def after_steps_Nil
      split: sum.splits)

lemma file_loop_steps:
  "file_loop fl t s fs st =
     (first_abort (run_steps s fs), after_steps fl t (executed (run_steps s fs)) st)"
proof (induction fs arbitrary: s st)
  case Nil
  show ?case by (simp add: executed_def after_steps_Nil)
next
  case (Cons f fs)
  show ?case
  proof (cases "first_abort (file_steps s f)")
    case None
    then show ?thesis
      by (simp add: processFile_steps Cons first_abort_append executed_append after_steps_append
          executed_no_abort)
  next
    case (Some e)
    then show ?thesis
      by (simp add: processFile_steps first_abort_append executed_append)
  qed
qed

lemma run_files_steps:
  "run_files fl st =
     (first_abort (run_steps 0 (files st)),
      after_steps fl (length (files st)) (executed (run_steps 0 (files st)))
        (st\<lparr>isProcessing := True, results := [], progress := 0,
            progressUpdates := progressUpdates st @ [0], error := None\<rparr>))"
  by (simp add: run_files_def file_loop_steps setProgress_def)

lemma startExtraction_steps:
  assumes "files st \<noteq> []"
  shows "startExtraction fl st =
     st\<lparr>results := step_records (executed (run_steps 0 (files st))),
        extractCalls := extractCalls st @ step_calls (executed (run_steps 0 (files st))),
        consoleErrors := consoleErrors st @ step_logs (executed (run_steps 0 (files st))),
        isProcessing := False,
        error := map_option error_text (first_abort (run_steps 0 (files st))),
        progress := 100,
        progressUpdates := progressUpdates st @ [0]
          @ step_progress fl (length (files st)) (executed (run_steps 0 (files st))) @ [100]\<rparr>"
  using assms
  by (simp add: startExtraction_def run_files_steps setProgress_def after_steps_def
      split: option.splits)

section \<open>Result accumulator: the progress values\<close>

lemma js_round_mono: "x \<le> y \<Longrightarrow> js_round x \<le> js_round y"
  by (simp add: js_round_def floor_mono)

lemma progressValue_mono:
  assumes fl: "mono fl" "fl 0 = 0" "fl 1 = 1"
    and le: "page_le (s, i, n) (s', i', n')"
    and ok: "1 \<le> i" "i \<le> int n" "1 \<le> i'" "i' \<le> int n'"
  shows "progressValue fl s i n t \<le> progressValue fl s' i' n' t"
proof -
  have n: "0 < real n" "0 < real n'" using ok by auto
  have a: "real s + fl (real_of_int i / real n) \<le> real s' + fl (real_of_int i' / real n')"
  proof (cases "s < s'")
    case True
    have "real_of_int i / real n \<le> 1" using ok n by simp
    then have "fl (real_of_int i / real n) \<le> 1" using monoD [OF fl(1)] fl(3) by metis
    moreover have "0 \<le> real_of_int i' / real n'" using ok n by simp
    then have "0 \<le> fl (real_of_int i' / real n')" using monoD [OF fl(1)] fl(2) by metis
    moreover have "real s + 1 \<le> real s'" using True by linarith
    ultimately show ?thesis by linarith
  next
    case False
    with le have eq: "s = s'" "n = n'" "i \<le> i'" by auto
    then have "real_of_int i / real n \<le> real_of_int i' / real n'"
      using n by (simp add: divide_right_mono)
    then show ?thesis using monoD [OF fl(1)] eq by simp
  qed
  have b: "fl (real s + fl (real_of_int i / real n)) / real t
      \<le> fl (real s' + fl (real_of_int i' / real n')) / real t"
    using monoD [OF fl(1) a] by (simp add: divide_right_mono)
  have c: "fl (fl (real s + fl (real_of_int i / real n)) / real t) * 100
      \<le> fl (fl (real s' + fl (real_of_int i' / real n')) / real t) * 100"
    using monoD [OF fl(1) b] by simp
  show ?thesis
    unfolding progressValue_def by (rule js_round_mono) (rule monoD [OF fl(1) c])
qed

lemma progressValue_bounds:
  assumes fl: "mono fl" "fl 0 = 0" "fl 1 = 1" "fl 100 = 100" "fl (real t) = real t"
    and ok: "s < t" "1 \<le> i" "i \<le> int n"
  shows "0 \<le> progressValue fl s i n t \<and> progressValue fl s i n t \<le> 100"
proof -
  have n: "0 < real n" and t: "0 < real t" using ok by auto
  let ?q = "fl (real_of_int i / real n)"
  have "0 \<le> real_of_int i / real n" "real_of_int i / real n \<le> 1" using ok n by simp_all
  then have q: "0 \<le> ?q" "?q \<le> 1" using monoD [OF fl(1)] fl(2,3) by metis+
  let ?a = "fl (real s + ?q)"
  have "0 \<le> real s + ?q" "real s + ?q \<le> real t" using q ok by linarith+
  then have a: "0 \<le> ?a" "?a \<le> real t" using monoD [OF fl(1)] fl(2,5) by metis+
  let ?b = "fl (?a / real t)"
  have "0 \<le> ?a / real t" "?a / real t \<le> 1" using a t by simp_all
  then have b: "0 \<le> ?b" "?b \<le> 1" using monoD [OF fl(1)] fl(2,3) by metis+
  let ?c = "fl (?b * 100)"
  have "0 \<le> ?b * 100" "?b * 100 \<le> 100" using b by simp_all
  then have c: "0 \<le> ?c" "?c \<le> 100" using monoD [OF fl(1)] fl(2,4) by metis+
  have "js_round 0 \<le> js_round ?c" "js_round ?c \<le> js_round 100"
    using c by (simp_all add: js_round_mono)
  moreover have "js_round 0 = 0" "js_round 100 = 100" by (simp_all add: js_round_def)
  ultimately show ?thesis by (simp add: progressValue_def)
qed

lemma page_steps_set:
  "x \<in> set (step_pages (page_steps s n i ps)) \<Longrightarrow>
     \<exists>j. x = (s, j, n) \<and> i \<le> j \<and> j < i + int (length ps)"
proof (induction ps arbitrary: i)
  case Nil
  then show ?case by simp
next
  case (Cons p ps)
  show ?case
  proof (cases "x \<in> set (step_pages (page_steps s n (i + 1) ps))")
    case True
    from Cons.IH [OF this] show ?thesis by auto
  next
    case False
    with Cons.prems have "x = (s, i, n)" by (auto split: sum.splits)
    then show ?thesis by simp
  qed
qed

lemma page_steps_sorted: "sorted_wrt page_le (step_pages (page_steps s n i ps))"
proof (induction ps arbitrary: i)
  case Nil
  show ?case by simp
next
  case (Cons p ps)
  have "page_le (s, i, n) x" if "x \<in> set (step_pages (page_steps s n (i + 1) ps))" for x
    using page_steps_set [OF that] by auto
  with Cons show ?case by (auto split: sum.splits)
qed

lemma file_steps_set:
  "x \<in> set (step_pages (file_steps s f)) \<Longrightarrow> page_ok s (Suc s) x"
  by (auto simp: file_steps_def split: if_splits sum.splits dest!: page_steps_set)

lemma file_steps_sorted: "sorted_wrt page_le (step_pages (file_steps s f))"
  by (simp add: file_steps_def page_steps_sorted split: sum.splits)

lemma page_ok_weaken: "page_ok lo hi x \<Longrightarrow> lo' \<le> lo \<Longrightarrow> hi \<le> hi' \<Longrightarrow> page_ok lo' hi' x"
  by (cases x) simp

lemma run_steps_set:
  "x \<in> set (step_pages (run_steps s fs)) \<Longrightarrow> page_ok s (s + length fs) x"
proof (induction fs arbitrary: s)
  case Nil
  then show ?case by simp
next
  case (Cons f fs)
  from Cons.prems consider "x \<in> set (step_pages (file_steps s f))"
    | "x \<in> set (step_pages (run_steps (s + 1) fs))"
    by (auto simp: step_pages_append)
  then show ?case
  proof cases
    case 1
    from file_steps_set [OF this] show ?thesis by (rule page_ok_weaken) simp_all
  next
    case 2
    from Cons.IH [OF this] show ?thesis by (rule page_ok_weaken) simp_all
  qed
qed

lemma run_steps_sorted: "sorted_wrt page_le (step_pages (run_steps s fs))"
proof (induction fs arbitrary: s)
  case Nil
  show ?case by simp
next
  case (Cons f fs)
  have "page_le x y"
    if "x \<in> set (step_pages (file_steps s f))" "y \<in> set (step_pages (run_steps (s + 1) fs))"
    for x y
    using file_steps_set [OF that(1)] run_steps_set [OF that(2)] by (cases x; cases y) simp
  with Cons [of "s + 1"] file_steps_sorted [of s f] show ?case
    by (simp add: step_pages_append sorted_wrt_append)
qed

lemma executed_pages_set:
  "x \<in> set (step_pages (executed steps)) \<Longrightarrow> x \<in> set (step_pages steps)"
  using executed_split [of steps] step_pages_append [of "executed steps" "dropWhile is_step steps"]
  by (metis Un_iff set_append)

lemma executed_pages_sorted:
  "sorted_wrt page_le (step_pages steps) \<Longrightarrow> sorted_wrt page_le (step_pages (executed steps))"
  using executed_split [of steps] step_pages_append [of "executed steps" "dropWhile is_step steps"]
  by (metis sorted_wrt_append)

lemma run_progress_sorted:
  assumes fl: "mono fl" "fl 0 = 0" "fl 1 = 1" "fl 100 = 100"
      "fl (real (length fs)) = real (length fs)"
  shows "sorted ([0] @ step_progress fl (length fs) (executed (run_steps 0 fs)) @ [100])"
proof -
  let ?pages = "step_pages (executed (run_steps 0 fs))"
  let ?pv = "\<lambda>(s, i, n). progressValue fl s i n (length fs)"
  have ok: "page_ok 0 (length fs) x" if "x \<in> set ?pages" for x
    using run_steps_set [OF executed_pages_set [OF that]] by simp
  have bounds: "0 \<le> ?pv x \<and> ?pv x \<le> 100" if "x \<in> set ?pages" for x
    using ok [OF that] progressValue_bounds [OF fl] by (cases x) simp
  have "sorted_wrt page_le ?pages"
    by (rule executed_pages_sorted) (rule run_steps_sorted)
  moreover have "?pv x \<le> ?pv y" if "x \<in> set ?pages" "y \<in> set ?pages" "page_le x y" for x y
  proof -
    obtain s i n where x: "x = (s, i, n)" by (cases x)
    obtain s' i' n' where y: "y = (s', i', n')" by (cases y)
    show ?thesis
      using ok [OF that(1)] ok [OF that(2)] that(3) progressValue_mono [OF fl(1-3), of s i n s' i' n']
      unfolding x y by simp
  qed
  ultimately have "sorted_wrt (\<lambda>x y. ?pv x \<le> ?pv y) ?pages"
    by (rule sorted_wrt_mono_rel [rotated]) blast
  then have "sorted (map ?pv ?pages)"
    by (simp add: sorted_wrt_map)
  with bounds show ?thesis
    by (auto simp: step_progress_def sorted_append)
qed

section \<open>Result accumulator: properties\<close>

text \<open>
  Claim C6. Take any run and any page of it whose extraction fails, reached by the run
  (no load or rendering failure before it): in the list of steps the page is
  \<open>Step s i n (Inl err)\<close> between the steps \<open>pre\<close> before it and the steps \<open>post\<close> after
  it. Then the failure is caught for that page alone: the results are the records of
  \<open>pre\<close> followed by the records of the steps of \<open>post\<close> that the run goes on to execute,
  with no record for the page; the extraction was called once on the page (no retry) and
  then on every executed step of \<open>post\<close>; the failure is logged once; and whether the
  run ends with an error message depends on \<open>post\<close> only.
\<close>

theorem extraction_failure_skips_one_page:
  assumes "files st \<noteq> []"
    and "run_steps 0 (files st) = pre @ Step s i n (Inl err) # post"
    and "first_abort pre = None"
  shows "results (startExtraction fl st) = step_records pre @ step_records (executed post) \<and>
    extractCalls (startExtraction fl st) =
      extractCalls st @ step_calls pre @ [(s, i)] @ step_calls (executed post) \<and>
    consoleErrors (startExtraction fl st) =
      consoleErrors st @ step_logs pre @ [(i, err)] @ step_logs (executed post) \<and>
    error (startExtraction fl st) = map_option error_text (first_abort post)"
proof -
  have ex: "executed (run_steps 0 (files st)) = pre @ Step s i n (Inl err) # executed post"
    using assms(3) executed_append [of "[Step s i n (Inl err)]" post]
    by (simp add: assms(2) executed_append)
  have ab: "first_abort (run_steps 0 (files st)) = first_abort post"
    using assms(3) by (simp add: assms(2) first_abort_append)
  show ?thesis
    unfolding startExtraction_steps [OF assms(1)] ex ab
    by (simp add: step_records_append step_calls_append step_logs_append)
qed

theorem extraction_failure_skips_one_page_witness:
  "results (startExtraction (\<lambda>x. x)
      (used_state [pdf_file [good_page ''a'', unread_page, good_page ''b''], pdf_file [good_page ''c'']]))
     = [(example_record ''a'')\<lparr>votingType := label_early_in, pageNumber := Some 1\<rparr>,
        (example_record ''b'')\<lparr>votingType := label_early_in, pageNumber := Some 3\<rparr>,
        (example_record ''c'')\<lparr>votingType := label_early_in, pageNumber := Some 1\<rparr>] \<and>
   extractCalls (startExtraction (\<lambda>x. x)
      (used_state [pdf_file [good_page ''a'', unread_page, good_page ''b''], pdf_file [good_page ''c'']]))
     = [(0, 1), (0, 2), (0, 3), (1, 1)] \<and>
   consoleErrors (startExtraction (\<lambda>x. x)
      (used_state [pdf_file [good_page ''a'', unread_page, good_page ''b''], pdf_file [good_page ''c'']]))
     = [(2, Error ''No response from AI'')] \<and>
   error (startExtraction (\<lambda>x. x)
      (used_state [pdf_file [good_page ''a'', unread_page, good_page ''b''], pdf_file [good_page ''c'']]))
     = None"
  using extraction_failure_skips_one_page
    [of "used_state [pdf_file [good_page ''a'', unread_page, good_page ''b''], pdf_file [good_page ''c'']]"
        "[Step 0 1 3 (Inr (example_record ''a''))]" 0 2 3 "Error ''No response from AI''"
        "[Step 0 3 3 (Inr (example_record ''b'')), Step 1 1 1 (Inr (example_record ''c''))]"
        "\<lambda>x. x"]
  by (simp add: used_state_def pdf_file_def good_page_def unread_page_def file_steps_def
      executed_def mappedType_def)

text \<open>
  Claim C7. For every run of \<open>startExtraction\<close> on a non-empty file list, whether the file
  loop ends normally or by a thrown value: progress is set to 100 (as the last progress
  update) and the processing flag is cleared; the results are exactly those of the state
  in which the loop ended, so nothing appended before a failure is rolled back; and the
  error message is the single message built from the thrown value, or none when nothing
  was thrown. In terms of the steps of the run: the results are the records of the steps
  before the first run-level failure, and the message is built from that failure.
\<close>

theorem startExtraction_finally:
  assumes "files st \<noteq> []"
  shows "progress (startExtraction fl st) = 100 \<and>
    last (progressUpdates (startExtraction fl st)) = 100 \<and>
    \<not> isProcessing (startExtraction fl st) \<and>
    results (startExtraction fl st) = results (snd (run_files fl st)) \<and>
    error (startExtraction fl st) = map_option error_text (fst (run_files fl st)) \<and>
    results (startExtraction fl st) = step_records (executed (run_steps 0 (files st))) \<and>
    error (startExtraction fl st) = map_option error_text (first_abort (run_steps 0 (files st)))"
  unfolding startExtraction_steps [OF assms] run_files_steps
  by (simp add: after_steps_def)

theorem startExtraction_finally_witness:
  "progress (startExtraction (\<lambda>x. x)
      (used_state [pdf_file [good_page ''a'', unrendered_page, good_page ''b''], pdf_file [good_page ''c'']]))
     = 100 \<and>
   \<not> isProcessing (startExtraction (\<lambda>x. x)
      (used_state [pdf_file [good_page ''a'', unrendered_page, good_page ''b''], pdf_file [good_page ''c'']])) \<and>
   results (startExtraction (\<lambda>x. x)
      (used_state [pdf_file [good_page ''a'', unrendered_page, good_page ''b''], pdf_file [good_page ''c'']]))
     = [(example_record ''a'')\<lparr>votingType := label_early_in, pageNumber := Some 1\<rparr>] \<and>
   error (startExtraction (\<lambda>x. x)
      (used_state [pdf_file [good_page ''a'', unrendered_page, good_page ''b''], pdf_file [good_page ''c'']]))
     = Some ''Extraction failed: Canvas context error''"
  using startExtraction_finally
    [of "used_state [pdf_file [good_page ''a'', unrendered_page, good_page ''b''], pdf_file [good_page ''c'']]"
        "\<lambda>x. x"]
  by (simp add: used_state_def pdf_file_def good_page_def unrendered_page_def file_steps_def
      executed_def mappedType_def error_text_def run_files_def processFile_def setProgress_def)

text \<open>
  Claim C8. In a run on a non-empty file list the values passed to \<open>setProgress\<close> are: 0,
  then for every page the run reaches and renders, in order and whatever the outcome of
  its extraction (one value per extraction call), the value
  \<open>Math.round(((startIndex + i / pagesCount) / totalFiles) * 100)\<close>, then 100; and this
  sequence is non-decreasing. The value of a page is the rounding to the nearest integer,
  a half rounded up, of the double \<open>x = ((startIndex + i / pagesCount) / totalFiles) * 100\<close>:
  it is the integer \<open>v\<close> with \<open>v \<le> x + 1/2 < v + 1\<close>. The double arithmetic enters
  through its rounding \<open>fl\<close>, of which the proof uses that it is monotone and exact at 0,
  1, 100 and the number of files.
\<close>

theorem progress_sequence_monotone:
  assumes "files st \<noteq> []"
    and "mono fl" and "fl 0 = 0" and "fl 1 = 1" and "fl 100 = 100"
    and "fl (real (length (files st))) = real (length (files st))"
  shows "progressUpdates (startExtraction fl st) =
      progressUpdates st @ [0] @
      map (\<lambda>(s, i, n). progressValue fl s i n (length (files st)))
        (step_pages (executed (run_steps 0 (files st)))) @ [100] \<and>
    extractCalls (startExtraction fl st) =
      extractCalls st @ map (\<lambda>(s, i, n). (s, i)) (step_pages (executed (run_steps 0 (files st)))) \<and>
    sorted ([0] @
      map (\<lambda>(s, i, n). progressValue fl s i n (length (files st)))
        (step_pages (executed (run_steps 0 (files st)))) @ [100]) \<and>
    (\<forall>(s, i, n) \<in> set (step_pages (executed (run_steps 0 (files st)))).
       real_of_int (progressValue fl s i n (length (files st)))
         \<le> fl (fl (fl (real s + fl (real_of_int i / real n)) / real (length (files st))) * 100)
             + 1 / 2 \<and>
       fl (fl (fl (real s + fl (real_of_int i / real n)) / real (length (files st))) * 100) + 1 / 2
         < real_of_int (progressValue fl s i n (length (files st))) + 1)"
proof -
  have nearest: "real_of_int (progressValue fl s i n t)
         \<le> fl (fl (fl (real s + fl (real_of_int i / real n)) / real t) * 100) + 1 / 2 \<and>
       fl (fl (fl (real s + fl (real_of_int i / real n)) / real t) * 100) + 1 / 2
         < real_of_int (progressValue fl s i n t) + 1" for s i n t
    unfolding progressValue_def js_round_def
    using floor_correct
      [of "fl (fl (fl (real s + fl (real_of_int i / real n)) / real t) * 100) + 1 / 2"]
    by simp
  have seq: "progressUpdates (startExtraction fl st) =
      progressUpdates st @ [0] @
      map (\<lambda>(s, i, n). progressValue fl s i n (length (files st)))
        (step_pages (executed (run_steps 0 (files st)))) @ [100] \<and>
    extractCalls (startExtraction fl st) =
      extractCalls st @ map (\<lambda>(s, i, n). (s, i)) (step_pages (executed (run_steps 0 (files st)))) \<and>
    sorted ([0] @
      map (\<lambda>(s, i, n). progressValue fl s i n (length (files st)))
        (step_pages (executed (run_steps 0 (files st)))) @ [100])"
    using run_progress_sorted [OF assms(2-6)]
    unfolding startExtraction_steps [OF assms(1)]
    by (simp add: step_progress_def step_calls_pages)
  have "\<forall>(s, i, n) \<in> set (step_pages (executed (run_steps 0 (files st)))).
       real_of_int (progressValue fl s i n (length (files st)))
         \<le> fl (fl (fl (real s + fl (real_of_int i / real n)) / real (length (files st))) * 100)
             + 1 / 2 \<and>
       fl (fl (fl (real s + fl (real_of_int i / real n)) / real (length (files st))) * 100) + 1 / 2
         < real_of_int (progressValue fl s i n (length (files st))) + 1"
    using nearest by blast
  with seq show ?thesis by (simp only: simp_thms)
qed

theorem progress_sequence_monotone_witness:
  "progressUpdates (startExtraction (\<lambda>x. x)
      (used_state [pdf_file [good_page ''a'', unread_page, good_page ''c''], pdf_file [good_page ''d'']]))
     = [0, 17, 33, 50, 100, 100] \<and>
   extractCalls (startExtraction (\<lambda>x. x)
      (used_state [pdf_file [good_page ''a'', unread_page, good_page ''c''], pdf_file [good_page ''d'']]))
     = [(0, 1), (0, 2), (0, 3), (1, 1)]"
  using progress_sequence_monotone
    [of "used_state [pdf_file [good_page ''a'', unread_page, good_page ''c''], pdf_file [good_page ''d'']]" "\<lambda>x. x"]
  by (simp add: used_state_def pdf_file_def good_page_def unread_page_def file_steps_def
      executed_def progressValue_def js_round_def mono_def)

text \<open>
  Claim C10. With an empty file list \<open>startExtraction\<close> returns the state it was given:
  results, progress, error message and processing flag (and all three effect traces) are
  untouched.
\<close>

theorem startExtraction_no_files: "files st = [] \<Longrightarrow> startExtraction fl st = st"
  by (simp add: startExtraction_def)

theorem startExtraction_no_files_witness:
  "startExtraction (\<lambda>x. x) (used_state []) = used_state [] \<and>
   results (used_state []) = [example_record ''old''] \<and> progress (used_state []) = 100"
  using startExtraction_no_files [of "used_state []" "\<lambda>x. x"]
  by (simp add: used_state_def)

section \<open>District aggregator: the objects it builds\<close>

lemma first_seen_snoc:
  "first_seen (xs @ [x]) = (if x \<in> set (first_seen xs) then first_seen xs else first_seen xs @ [x])"
  by (simp add: first_seen_def)

lemma set_first_seen: "set (first_seen xs) = set xs"
  by (induction xs rule: rev_induct) (auto simp: first_seen_snoc, simp add: first_seen_def)

lemma distinct_first_seen: "distinct (first_seen xs)"
  by (induction xs rule: rev_induct) (simp_all add: first_seen_snoc, simp add: first_seen_def)

lemma first_seen_Nil: "first_seen [] = []"
  by (simp add: first_seen_def)

lemma js_set_new: "k \<notin> fst ` set obj \<Longrightarrow> js_set k v obj = obj @ [(k, v)]"
  by (induction obj) auto

lemma js_set_table:
  "distinct ks \<Longrightarrow> k \<in> set ks \<Longrightarrow>
     js_set k v (map (\<lambda>x. (x, f x)) ks) = map (\<lambda>x. (x, if x = k then v else f x)) ks"
  by (induction ks) auto

lemma map_of_table: "map_of (map (\<lambda>x. (x, f x)) ks) k = (if k \<in> set ks then Some (f k) else None)"
  by (induction ks) auto

lemma js_get_table:
  "js_get (map (\<lambda>x. (x, f x)) ks) k =
     (if k \<in> set ks then Own (f k) else if own_name k then Undefined else Inherited)"
  by (simp add: js_get_def map_of_table own_name_def)

lemma votes_for_snoc:
  "votes_for c (cvs @ [cv]) = (if candidateName cv = c then votes_for c cvs @ [cv] else votes_for c cvs)"
  by (simp add: votes_for_def)

lemma candidate_sums_snoc:
  "candidate_sums c (cvs @ [cv]) =
     (if candidateName cv = c then
        (candidate_sums c cvs)\<lparr>classified := classified (candidate_sums c cvs) + classifiedVotes cv,
          reconfirm := reconfirm (candidate_sums c cvs) + reconfirmVotes cv,
          total := total (candidate_sums c cvs) + totalVotes cv\<rparr>
      else candidate_sums c cvs)"
  by (simp add: candidate_sums_def votes_for_snoc)

lemma candidate_sums_none:
  "c \<notin> candidateName ` set cvs \<Longrightarrow> candidate_sums c cvs = \<lparr>classified = 0, reconfirm = 0, total = 0\<rparr>"
proof -
  assume "c \<notin> candidateName ` set cvs"
  then have "votes_for c cvs = []" by (auto simp: votes_for_def filter_empty_conv)
  then show ?thesis by (simp add: candidate_sums_def)
qed

lemma add_vote_votes_object: "add_vote (\<lambda>x. x) (votes_object cvs) cv = votes_object (cvs @ [cv])"
proof -
  let ?c = "candidateName cv"
  let ?ks = "first_seen (filter own_name (map candidateName cvs))"
  show ?thesis
  proof (cases "own_name ?c")
    case False
    then have "?c \<notin> set ?ks" by (simp add: set_first_seen)
    with False show ?thesis
      by (simp add: add_vote_def votes_object_def js_get_table candidate_sums_snoc cong: map_cong)
  next
    case True
    define ks' where "ks' = first_seen (filter own_name (map candidateName (cvs @ [cv])))"
    have ks': "ks' = (if ?c \<in> set ?ks then ?ks else ?ks @ [?c])"
      using True by (simp add: ks'_def first_seen_snoc)
    have d: "distinct ks'" unfolding ks'_def by (rule distinct_first_seen)
    have in': "?c \<in> set ks'" using True by (simp add: ks'_def set_first_seen)
    have zero: "candidate_sums ?c cvs = \<lparr>classified = 0, reconfirm = 0, total = 0\<rparr>"
      if "?c \<notin> set ?ks"
      using that by (intro candidate_sums_none) (auto simp: set_first_seen True)
    have step1: "(case js_get (votes_object cvs) ?c of
               Undefined \<Rightarrow> js_set ?c \<lparr>classified = 0, reconfirm = 0, total = 0\<rparr> (votes_object cvs)
             | _ \<Rightarrow> votes_object cvs) = map (\<lambda>c. (c, candidate_sums c cvs)) ks'"
    proof (cases "?c \<in> set ?ks")
      case True
      then show ?thesis by (simp add: votes_object_def js_get_table ks')
    next
      case False
      then have "?c \<notin> fst ` set (votes_object cvs)"
        by (auto simp: votes_object_def)
      then have "js_set ?c \<lparr>classified = 0, reconfirm = 0, total = 0\<rparr> (votes_object cvs)
          = votes_object cvs @ [(?c, \<lparr>classified = 0, reconfirm = 0, total = 0\<rparr>)]"
        by (rule js_set_new)
      with False True zero show ?thesis
        by (simp add: votes_object_def js_get_table ks')
    qed
    have "add_vote (\<lambda>x. x) (votes_object cvs) cv =
        map (\<lambda>c. (c, candidate_sums c (cvs @ [cv]))) ks'"
      unfolding add_vote_def Let_def step1
      using in' d
      by (simp add: js_get_table js_set_table candidate_sums_snoc)
    then show ?thesis by (simp add: votes_object_def ks'_def)
  qed
qed

lemma foldl_add_vote: "foldl (add_vote (\<lambda>x. x)) (votes_object cvs) new = votes_object (cvs @ new)"
  by (induction new arbitrary: cvs) (simp_all add: add_vote_votes_object)


lemma summary_of_snoc:
  "summary_of (rs @ [p]) k =
     (if district_key p = k then
        (summary_of rs k)\<lparr>validTotal := validTotal (summary_of rs k) + validVotes p,
          invalidTotal := invalidTotal (summary_of rs k) + invalidVotes p,
          grandTotal := grandTotal (summary_of rs k) + pageTotalVotes p,
          votesByCandidate := foldl (add_vote (\<lambda>x. x)) (votesByCandidate (summary_of rs k)) (candidateVotes p)\<rparr>
      else summary_of rs k)"
  by (simp add: summary_of_def pages_of_def votes_of_def foldl_add_vote)

lemma summary_of_none:
  "k \<notin> district_key ` set rs \<Longrightarrow>
     summary_of rs k =
       \<lparr>districtKey = k, votesByCandidate = [], validTotal = 0, invalidTotal = 0, grandTotal = 0\<rparr>"
proof -
  assume "k \<notin> district_key ` set rs"
  then have "pages_of k rs = []" by (auto simp: pages_of_def filter_empty_conv)
  then show ?thesis by (simp add: summary_of_def votes_of_def votes_object_def first_seen_Nil)
qed

lemma add_page_summary_object:
  "add_page (\<lambda>x. x) (summary_object rs) p =
     (if \<not> own_name (district_key p) \<and> candidateVotes p \<noteq> [] then Inl TypeError
      else Inr (summary_object (rs @ [p])))"
proof -
  let ?k = "district_key p"
  let ?ks = "first_seen (filter own_name (map district_key rs))"
  show ?thesis
  proof (cases "own_name ?k")
    case False
    then have "?k \<notin> set ?ks" by (simp add: set_first_seen)
    moreover have "summary_of (rs @ [p]) x = summary_of rs x" if "x \<in> set ?ks" for x
      using that False by (auto simp: summary_of_snoc set_first_seen)
    ultimately show ?thesis
      using False by (simp add: add_page_def summary_object_def js_get_table cong: map_cong)
  next
    case True
    define ks' where "ks' = first_seen (filter own_name (map district_key (rs @ [p])))"
    have ks': "ks' = (if ?k \<in> set ?ks then ?ks else ?ks @ [?k])"
      using True by (simp add: ks'_def first_seen_snoc)
    have d: "distinct ks'" unfolding ks'_def by (rule distinct_first_seen)
    have in': "?k \<in> set ks'" using True by (simp add: ks'_def set_first_seen)
    have zero: "summary_of rs ?k =
        \<lparr>districtKey = ?k, votesByCandidate = [], validTotal = 0, invalidTotal = 0, grandTotal = 0\<rparr>"
      if "?k \<notin> set ?ks"
      using that by (intro summary_of_none) (auto simp: set_first_seen True)
    have step1: "(case js_get (summary_object rs) ?k of
               Undefined \<Rightarrow>
                 js_set ?k \<lparr>districtKey = ?k, votesByCandidate = [], validTotal = 0,
                            invalidTotal = 0, grandTotal = 0\<rparr> (summary_object rs)
             | _ \<Rightarrow> summary_object rs) = map (\<lambda>k. (k, summary_of rs k)) ks'"
    proof (cases "?k \<in> set ?ks")
      case True
      then show ?thesis by (simp add: summary_object_def js_get_table ks')
    next
      case False
      then have "?k \<notin> fst ` set (summary_object rs)"
        by (auto simp: summary_object_def)
      then have "js_set ?k \<lparr>districtKey = ?k, votesByCandidate = [], validTotal = 0,
                            invalidTotal = 0, grandTotal = 0\<rparr> (summary_object rs)
          = summary_object rs @ [(?k, \<lparr>districtKey = ?k, votesByCandidate = [], validTotal = 0,
                            invalidTotal = 0, grandTotal = 0\<rparr>)]"
        by (rule js_set_new)
      with False True zero show ?thesis
        by (simp add: summary_object_def js_get_table ks')
    qed
    have "add_page (\<lambda>x. x) (summary_object rs) p = Inr (map (\<lambda>k. (k, summary_of (rs @ [p]) k)) ks')"
      unfolding add_page_def Let_def step1
      using in' d
      by (simp add: js_get_table js_set_table summary_of_snoc)
    then show ?thesis using True by (simp add: summary_object_def ks'_def)
  qed
qed

lemma add_pages_summary_object:
  "add_pages (\<lambda>x. x) (summary_object rs) ps =
     (if throws ps then Inl TypeError else Inr (summary_object (rs @ ps)))"
proof (induction ps arbitrary: rs)
  case Nil
  show ?case by (simp add: throws_def)
next
  case (Cons p ps)
  show ?case
    using Cons [of "rs @ [p]"]
    by (simp add: add_page_summary_object throws_def)
qed

lemma summary_object_Nil: "summary_object [] = []"
  by (simp add: summary_object_def first_seen_Nil)

lemma set_js_key_order: "set (js_key_order ks) = set ks"
  by (auto simp: js_key_order_def)

lemma distinct_js_key_order: "distinct ks \<Longrightarrow> distinct (js_key_order ks)"
  by (auto simp: js_key_order_def)

lemma js_key_order_plain: "list_all (\<lambda>k. \<not> is_array_index k) ks \<Longrightarrow> js_key_order ks = ks"
  by (simp add: js_key_order_def list_all_iff filter_empty_conv)

lemma map_filter_table:
  "set xs \<subseteq> set ks \<Longrightarrow> List.map_filter (map_of (map (\<lambda>x. (x, f x)) ks)) xs = map f xs"
  by (induction xs) (simp_all add: map_of_table List.map_filter_simps)

lemma js_values_table: "js_values (map (\<lambda>x. (x, f x)) ks) = map f (js_key_order ks)"
  by (simp add: js_values_def comp_def map_filter_table set_js_key_order)

lemma districtSummary_eq:
  "districtSummary (\<lambda>x. x) rs =
     (if throws rs then Inl TypeError
      else Inr (map (summary_of rs) (js_key_order (first_seen (filter own_name (map district_key rs))))))"
  using add_pages_summary_object [of "[]" rs]
  by (simp add: districtSummary_def summary_object_Nil)
     (simp add: summary_object_def js_values_table)



lemma map_of_votes_object:
  "map_of (votes_object cvs) c =
     (if own_name c \<and> c \<in> candidateName ` set cvs then Some (candidate_sums c cvs) else None)"
  by (auto simp: votes_object_def map_of_table set_first_seen)





lemma throws_set: "throws rs \<longleftrightarrow> (\<exists>p \<in> set rs. \<not> own_name (district_key p) \<and> candidateVotes p \<noteq> [])"
  by (simp add: throws_def list_ex_iff)



section \<open>District aggregator: where its additions are exact\<close>

lemma map_of_js_set: "map_of (js_set k v obj) = (map_of obj)(k \<mapsto> v)"
  by (induction obj) auto

lemma sum_filter_le:
  "list_all (\<lambda>x. 0 \<le> f x) xs \<Longrightarrow> sum_list (map f (filter P xs)) \<le> sum_list (map f xs)"
  for f :: "'a \<Rightarrow> int"
  by (induction xs) auto

lemma sum_nonneg_list: "list_all (\<lambda>x. 0 \<le> f x) xs \<Longrightarrow> 0 \<le> sum_list (map f xs)"
  for f :: "'a \<Rightarrow> int"
  by (induction xs) auto

lemma add_vote_cong:
  assumes "\<And>t. t \<in> insert \<lparr>classified = 0, reconfirm = 0, total = 0\<rparr> (snd ` set votes) \<Longrightarrow>
      fl (classified t + classifiedVotes cv) = classified t + classifiedVotes cv \<and>
      fl (reconfirm t + reconfirmVotes cv) = reconfirm t + reconfirmVotes cv \<and>
      fl (total t + totalVotes cv) = total t + totalVotes cv"
  shows "add_vote fl votes cv = add_vote (\<lambda>x. x) votes cv"
proof (cases "map_of votes (candidateName cv)")
  case None
  then show ?thesis
    using assms [of "\<lparr>classified = 0, reconfirm = 0, total = 0\<rparr>"]
    by (simp add: add_vote_def js_get_def map_of_js_set)
next
  case (Some t)
  then have "t \<in> snd ` set votes" by (metis map_of_SomeD snd_conv image_eqI)
  with Some assms [of t] show ?thesis
    by (simp add: add_vote_def js_get_def)
qed

lemma add_vote_fl:
  assumes "exact_counts fl" and "votes_in_range (cvs @ [cv])"
  shows "add_vote fl (votes_object cvs) cv = votes_object (cvs @ [cv])"
proof -
  have ex: "fl x = x" if "0 \<le> x" "x \<le> 9007199254740992" for x
    using assms(1) that by (simp add: exact_counts_def)
  have all: "list_all (\<lambda>v. 0 \<le> classifiedVotes v) cvs" "list_all (\<lambda>v. 0 \<le> reconfirmVotes v) cvs"
    "list_all (\<lambda>v. 0 \<le> totalVotes v) cvs"
    using assms(2) by (simp_all add: votes_in_range_def list_all_iff)
  have nn: "0 \<le> classifiedVotes cv" "0 \<le> reconfirmVotes cv" "0 \<le> totalVotes cv"
    using assms(2) by (simp_all add: votes_in_range_def)
  have s: "sum_list (map classifiedVotes cvs) + classifiedVotes cv \<le> 9007199254740992"
    "sum_list (map reconfirmVotes cvs) + reconfirmVotes cv \<le> 9007199254740992"
    "sum_list (map totalVotes cvs) + totalVotes cv \<le> 9007199254740992"
    using assms(2) by (simp_all add: votes_in_range_def)
  have o: "0 \<le> classified t \<and> classified t \<le> sum_list (map classifiedVotes cvs) \<and>
      0 \<le> reconfirm t \<and> reconfirm t \<le> sum_list (map reconfirmVotes cvs) \<and>
      0 \<le> total t \<and> total t \<le> sum_list (map totalVotes cvs)"
    if "t \<in> insert \<lparr>classified = 0, reconfirm = 0, total = 0\<rparr> (snd ` set (votes_object cvs))" for t
  proof -
    from that consider "t = \<lparr>classified = 0, reconfirm = 0, total = 0\<rparr>"
      | c where "t = candidate_sums c cvs"
      by (auto simp: votes_object_def)
    then show ?thesis
    proof cases
      case 1
      then show ?thesis
        using sum_nonneg_list [OF all(1)] sum_nonneg_list [OF all(2)] sum_nonneg_list [OF all(3)]
        by simp
    next
      case (2 c)
      have f: "list_all (\<lambda>v. 0 \<le> g v) (filter (\<lambda>v. candidateName v = c) cvs)"
        if "list_all (\<lambda>v. 0 \<le> g v) cvs" for g :: "CandidateVote \<Rightarrow> int"
        using that by (simp add: list_all_iff)
      show ?thesis
        unfolding 2 candidate_sums_def votes_for_def
        using sum_filter_le [OF all(1), of "\<lambda>v. candidateName v = c"]
          sum_filter_le [OF all(2), of "\<lambda>v. candidateName v = c"]
          sum_filter_le [OF all(3), of "\<lambda>v. candidateName v = c"]
          sum_nonneg_list [OF f [OF all(1)]] sum_nonneg_list [OF f [OF all(2)]]
          sum_nonneg_list [OF f [OF all(3)]]
        by simp
    qed
  qed
  have "fl (classified t + classifiedVotes cv) = classified t + classifiedVotes cv \<and>
      fl (reconfirm t + reconfirmVotes cv) = reconfirm t + reconfirmVotes cv \<and>
      fl (total t + totalVotes cv) = total t + totalVotes cv"
    if "t \<in> insert \<lparr>classified = 0, reconfirm = 0, total = 0\<rparr> (snd ` set (votes_object cvs))" for t
    using o [OF that] nn s by (intro conjI ex) linarith+
  then have "add_vote fl (votes_object cvs) cv = add_vote (\<lambda>x. x) (votes_object cvs) cv"
    by (rule add_vote_cong)
  then show ?thesis by (simp add: add_vote_votes_object)
qed

lemma votes_in_range_prefix: "votes_in_range (cvs @ new) \<Longrightarrow> votes_in_range cvs"
proof -
  assume a: "votes_in_range (cvs @ new)"
  then have "list_all (\<lambda>v. 0 \<le> classifiedVotes v) new" "list_all (\<lambda>v. 0 \<le> reconfirmVotes v) new"
    "list_all (\<lambda>v. 0 \<le> totalVotes v) new"
    by (simp_all add: votes_in_range_def list_all_iff)
  from this [THEN sum_nonneg_list] a show ?thesis
    by (simp add: votes_in_range_def)
qed

lemma votes_in_range_suffix: "votes_in_range (cvs @ new) \<Longrightarrow> votes_in_range new"
proof -
  assume a: "votes_in_range (cvs @ new)"
  then have "list_all (\<lambda>v. 0 \<le> classifiedVotes v) cvs" "list_all (\<lambda>v. 0 \<le> reconfirmVotes v) cvs"
    "list_all (\<lambda>v. 0 \<le> totalVotes v) cvs"
    by (simp_all add: votes_in_range_def list_all_iff)
  from this [THEN sum_nonneg_list] a show ?thesis
    by (simp add: votes_in_range_def)
qed

lemma foldl_add_vote_fl:
  "exact_counts fl \<Longrightarrow> votes_in_range (cvs @ new) \<Longrightarrow>
     foldl (add_vote fl) (votes_object cvs) new = votes_object (cvs @ new)"
proof (induction new arbitrary: cvs)
  case Nil
  show ?case by simp
next
  case (Cons cv new)
  from Cons.prems(2) have whole: "votes_in_range ((cvs @ [cv]) @ new)" by simp
  then have "votes_in_range (cvs @ [cv])" by (rule votes_in_range_prefix)
  with Cons.prems(1) have "add_vote fl (votes_object cvs) cv = votes_object (cvs @ [cv])"
    by (rule add_vote_fl)
  with Cons.IH [OF Cons.prems(1) whole] show ?case by simp
qed


lemma add_page_cong:
  assumes "\<And>t. t \<in> insert \<lparr>districtKey = district_key p, votesByCandidate = [], validTotal = 0,
        invalidTotal = 0, grandTotal = 0\<rparr> (snd ` set m) \<Longrightarrow>
      fl (validTotal t + validVotes p) = validTotal t + validVotes p \<and>
      fl (invalidTotal t + invalidVotes p) = invalidTotal t + invalidVotes p \<and>
      fl (grandTotal t + pageTotalVotes p) = grandTotal t + pageTotalVotes p \<and>
      foldl (add_vote fl) (votesByCandidate t) (candidateVotes p)
        = foldl (add_vote (\<lambda>x. x)) (votesByCandidate t) (candidateVotes p)"
  shows "add_page fl m p = add_page (\<lambda>x. x) m p"
proof (cases "map_of m (district_key p)")
  case None
  then show ?thesis
    using assms [of "\<lparr>districtKey = district_key p, votesByCandidate = [], validTotal = 0,
        invalidTotal = 0, grandTotal = 0\<rparr>"]
    by (simp add: add_page_def js_get_def map_of_js_set Let_def)
next
  case (Some t)
  then have "t \<in> snd ` set m" by (metis map_of_SomeD snd_conv image_eqI)
  with Some assms [of t] show ?thesis
    by (simp add: add_page_def js_get_def Let_def)
qed

lemma sum_concat_map:
  "sum_list (map f (concat (map g xs))) = sum_list (map (\<lambda>x. sum_list (map f (g x))) xs)"
  for f :: "'b \<Rightarrow> int"
  by (induction xs) simp_all

lemma votes_of_in_range:
  assumes "votes_in_range (concat (map candidateVotes rs) @ new)"
  shows "votes_in_range (votes_of k rs @ new)"
proof -
  let ?all = "concat (map candidateVotes rs)"
  have sub: "set (votes_of k rs) \<subseteq> set ?all" by (auto simp: votes_of_def pages_of_def)
  have le: "sum_list (map f (votes_of k rs)) \<le> sum_list (map f ?all)"
    if "list_all (\<lambda>v. 0 \<le> f v) ?all" for f :: "CandidateVote \<Rightarrow> int"
  proof -
    have "list_all (\<lambda>p. 0 \<le> sum_list (map f (candidateVotes p))) rs"
      using that by (auto simp: list_all_iff intro!: sum_nonneg_list)
    then show ?thesis
      unfolding votes_of_def pages_of_def sum_concat_map by (rule sum_filter_le)
  qed
  have a: "list_all (\<lambda>v. 0 \<le> classifiedVotes v) ?all" "list_all (\<lambda>v. 0 \<le> reconfirmVotes v) ?all"
    "list_all (\<lambda>v. 0 \<le> totalVotes v) ?all"
    using assms by (simp_all add: votes_in_range_def list_all_iff)
  show ?thesis
    using assms sub le [OF a(1)] le [OF a(2)] le [OF a(3)]
    by (auto simp: votes_in_range_def list_all_iff)
qed

lemma add_page_fl:
  assumes "exact_counts fl" and "counts_in_range (rs @ [p])"
  shows "add_page fl (summary_object rs) p = add_page (\<lambda>x. x) (summary_object rs) p"
proof -
  have ex: "fl x = x" if "0 \<le> x" "x \<le> 9007199254740992" for x
    using assms(1) that by (simp add: exact_counts_def)
  have all: "list_all (\<lambda>p. 0 \<le> validVotes p) rs" "list_all (\<lambda>p. 0 \<le> invalidVotes p) rs"
    "list_all (\<lambda>p. 0 \<le> pageTotalVotes p) rs"
    using assms(2) by (simp_all add: counts_in_range_def list_all_iff)
  have nn: "0 \<le> validVotes p" "0 \<le> invalidVotes p" "0 \<le> pageTotalVotes p"
    using assms(2) by (simp_all add: counts_in_range_def)
  have s: "sum_list (map validVotes rs) + validVotes p \<le> 9007199254740992"
    "sum_list (map invalidVotes rs) + invalidVotes p \<le> 9007199254740992"
    "sum_list (map pageTotalVotes rs) + pageTotalVotes p \<le> 9007199254740992"
    using assms(2) by (simp_all add: counts_in_range_def)
  have votes: "votes_in_range (concat (map candidateVotes rs) @ candidateVotes p)"
    using assms(2) by (simp add: counts_in_range_def)
  have o: "0 \<le> validTotal t \<and> validTotal t \<le> sum_list (map validVotes rs) \<and>
      0 \<le> invalidTotal t \<and> invalidTotal t \<le> sum_list (map invalidVotes rs) \<and>
      0 \<le> grandTotal t \<and> grandTotal t \<le> sum_list (map pageTotalVotes rs) \<and>
      (\<exists>cvs. votesByCandidate t = votes_object cvs \<and> votes_in_range (cvs @ candidateVotes p))"
    if "t \<in> insert \<lparr>districtKey = district_key p, votesByCandidate = [], validTotal = 0,
        invalidTotal = 0, grandTotal = 0\<rparr> (snd ` set (summary_object rs))" for t
  proof -
    from that consider "t = \<lparr>districtKey = district_key p, votesByCandidate = [], validTotal = 0,
        invalidTotal = 0, grandTotal = 0\<rparr>"
      | k where "t = summary_of rs k"
      by (auto simp: summary_object_def)
    then show ?thesis
    proof cases
      case 1
      have "votes_in_range ([] @ candidateVotes p)"
        using votes_in_range_suffix [OF votes] by simp
      moreover have "votes_object [] = []" by (simp add: votes_object_def first_seen_Nil)
      ultimately show ?thesis
        using 1 sum_nonneg_list [OF all(1)] sum_nonneg_list [OF all(2)] sum_nonneg_list [OF all(3)]
        by (metis AggregatedData.select_convs(2,3,4,5) order_refl append_Nil)
    next
      case (2 k)
      have f: "list_all (\<lambda>v. 0 \<le> g v) (filter (\<lambda>p. district_key p = k) rs)"
        if "list_all (\<lambda>v. 0 \<le> g v) rs" for g :: "ElectionPageData \<Rightarrow> int"
        using that by (simp add: list_all_iff)
      have "votes_in_range (votes_of k rs @ candidateVotes p)"
        using votes by (rule votes_of_in_range)
      then show ?thesis
        unfolding 2 summary_of_def pages_of_def
        using sum_filter_le [OF all(1), of "\<lambda>p. district_key p = k"]
          sum_filter_le [OF all(2), of "\<lambda>p. district_key p = k"]
          sum_filter_le [OF all(3), of "\<lambda>p. district_key p = k"]
          sum_nonneg_list [OF f [OF all(1)]] sum_nonneg_list [OF f [OF all(2)]]
          sum_nonneg_list [OF f [OF all(3)]]
        by (auto simp: pages_of_def)
    qed
  qed
  have "fl (validTotal t + validVotes p) = validTotal t + validVotes p \<and>
      fl (invalidTotal t + invalidVotes p) = invalidTotal t + invalidVotes p \<and>
      fl (grandTotal t + pageTotalVotes p) = grandTotal t + pageTotalVotes p \<and>
      foldl (add_vote fl) (votesByCandidate t) (candidateVotes p)
        = foldl (add_vote (\<lambda>x. x)) (votesByCandidate t) (candidateVotes p)"
    if "t \<in> insert \<lparr>districtKey = district_key p, votesByCandidate = [], validTotal = 0,
        invalidTotal = 0, grandTotal = 0\<rparr> (snd ` set (summary_object rs))" for t
  proof -
    from o [OF that] obtain cvs where cvs: "votesByCandidate t = votes_object cvs"
      "votes_in_range (cvs @ candidateVotes p)" by blast
    have "foldl (add_vote fl) (votesByCandidate t) (candidateVotes p)
        = foldl (add_vote (\<lambda>x. x)) (votesByCandidate t) (candidateVotes p)"
      unfolding cvs(1) by (simp add: foldl_add_vote_fl [OF assms(1) cvs(2)] foldl_add_vote)
    moreover have "fl (validTotal t + validVotes p) = validTotal t + validVotes p"
      "fl (invalidTotal t + invalidVotes p) = invalidTotal t + invalidVotes p"
      "fl (grandTotal t + pageTotalVotes p) = grandTotal t + pageTotalVotes p"
      using o [OF that] nn s by (intro ex; linarith)+
    ultimately show ?thesis by simp
  qed
  then show ?thesis by (rule add_page_cong)
qed

lemma counts_in_range_prefix: "counts_in_range (rs @ ps) \<Longrightarrow> counts_in_range rs"
proof -
  assume a: "counts_in_range (rs @ ps)"
  then have "list_all (\<lambda>v. 0 \<le> validVotes v) ps" "list_all (\<lambda>v. 0 \<le> invalidVotes v) ps"
    "list_all (\<lambda>v. 0 \<le> pageTotalVotes v) ps"
    by (simp_all add: counts_in_range_def list_all_iff)
  from this [THEN sum_nonneg_list] a
    votes_in_range_prefix [of "concat (map candidateVotes rs)" "concat (map candidateVotes ps)"]
  show ?thesis
    by (simp add: counts_in_range_def)
qed

lemma add_pages_fl:
  "exact_counts fl \<Longrightarrow> counts_in_range (rs @ ps) \<Longrightarrow>
     add_pages fl (summary_object rs) ps = add_pages (\<lambda>x. x) (summary_object rs) ps"
proof (induction ps arbitrary: rs)
  case Nil
  show ?case by simp
next
  case (Cons p ps)
  from Cons.prems(2) have whole: "counts_in_range ((rs @ [p]) @ ps)" by simp
  then have "counts_in_range (rs @ [p])" by (rule counts_in_range_prefix)
  with Cons.prems(1) have step: "add_page fl (summary_object rs) p = add_page (\<lambda>x. x) (summary_object rs) p"
    by (rule add_page_fl)
  show ?case
    using Cons.IH [OF Cons.prems(1) whole]
    by (simp add: step add_page_summary_object)
qed

lemma districtSummary_fl:
  "exact_counts fl \<Longrightarrow> counts_in_range rs \<Longrightarrow> districtSummary fl rs = districtSummary (\<lambda>x. x) rs"
  using add_pages_fl [of fl "[]" rs] by (simp add: districtSummary_def summary_object_Nil)

section \<open>Array-index keys and the rounding of doubles\<close>

lemma index_value_snoc: "index_value (s @ [c]) = 10 * index_value s + (of_char c - 48)"
  by (simp add: index_value_def)

lemma digit_char_value: "d < 10 \<Longrightarrow> (of_char (digit_char d) :: nat) - 48 = d"
  by (auto simp: digit_char_def eval_nat_numeral less_Suc_eq)

lemma index_value_digits: "index_value (digits n) = n"
proof (induction n rule: digits.induct)
  case (1 n)
  show ?case
  proof (cases "n < 10")
    case True
    then show ?thesis
      using digit_char_value [of n] by (subst digits.simps) (simp add: index_value_def)
  next
    case False
    with 1 show ?thesis
      using digit_char_value [of "n mod 10"]
      by (subst digits.simps) (simp add: index_value_snoc)
  qed
qed

lemma is_array_index_iff: "is_array_index k \<longleftrightarrow> (\<exists>n<4294967295. k = digits n)"
  by (auto simp: is_array_index_def index_value_digits)

lemma js_key_order_shape:
  assumes "distinct ks"
  shows "\<exists>idx. js_key_order ks = map digits idx @ filter (\<lambda>k. \<not> (\<exists>n<4294967295. k = digits n)) ks \<and>
    sorted_wrt (<) idx \<and> (\<forall>n \<in> set idx. n < 4294967295) \<and>
    set (map digits idx) = {k \<in> set ks. \<exists>n<4294967295. k = digits n}"
proof -
  let ?xs = "sort_key index_value (filter is_array_index ks)"
  let ?idx = "map index_value ?xs"
  have each: "digits (index_value k) = k \<and> index_value k < 4294967295" if "k \<in> set ?xs" for k
    using that by (simp add: is_array_index_def)
  have "map (\<lambda>k. digits (index_value k)) ?xs = ?xs"
    by (rule map_idI) (simp add: each)
  then have restore: "map digits ?idx = ?xs"
    by (simp add: comp_def)
  have inj: "inj_on index_value (set ?xs)"
    by (rule inj_on_inverseI [where g = digits]) (simp add: each)
  have "distinct ?xs" using assms by simp
  then have "distinct ?idx" using inj by (simp add: distinct_map)
  moreover have "sorted ?idx" by (rule sorted_sort_key)
  ultimately have strict: "sorted_wrt (<) ?idx" by (simp add: strict_sorted_iff)
  have non: "filter (\<lambda>k. \<not> is_array_index k) ks = filter (\<lambda>k. \<not> (\<exists>n<4294967295. k = digits n)) ks"
    by (simp add: is_array_index_iff)
  have order: "js_key_order ks = map digits ?idx @ filter (\<lambda>k. \<not> (\<exists>n<4294967295. k = digits n)) ks"
    unfolding restore by (simp add: js_key_order_def non)
  have bound: "\<forall>n \<in> set ?idx. n < 4294967295" using each by auto
  have sets: "set (map digits ?idx) = {k \<in> set ks. \<exists>n<4294967295. k = digits n}"
    unfolding restore by (auto simp: is_array_index_iff)
  from order strict bound sets show ?thesis by blast
qed

lemma ulp_small: "n < 9007199254740992 \<Longrightarrow> ulp n = 1"
  by (subst ulp.simps) simp

lemma round_nat_exact: "n \<le> 9007199254740992 \<Longrightarrow> round_nat n = n"
proof (cases "n < 9007199254740992")
  case True
  then show ?thesis by (simp add: round_nat_def ulp_small)
next
  case False
  assume "n \<le> 9007199254740992"
  with False have n: "n = 9007199254740992" by simp
  have "ulp n = 2" unfolding n by (subst ulp.simps) (simp add: ulp_small)
  then show ?thesis unfolding round_nat_def by (simp add: n)
qed

lemma exact_counts_double_int: "exact_counts double_int"
  by (auto simp: exact_counts_def double_int_def round_nat_exact nat_le_iff)

lemma prints_decimal_number_string: "prints_decimal number_string"
  by (simp add: prints_decimal_def)

section \<open>District aggregator: reordering the results\<close>



section \<open>District aggregator: its objects for any rounding\<close>












section \<open>District aggregator: properties\<close>

lemmas aggregator_eval =
  districtSummary_def add_page_def add_vote_def js_get_def js_values_def
  js_key_order_def is_array_index_def index_value_def digits.simps digit_char_def district_key_def
  example_page_def example_vote_def object_prototype_keys_def List.map_filter_simps Let_def
  double_int_def round_nat_def ulp.simps

text \<open>
  Claim C2, as stated, at a concrete input: the first page has district \<open>Hallim\<close>, the
  second has district \<open>1\<close>. Each district gets one summary, but the summary of \<open>1\<close>
  comes first although \<open>Hallim\<close> was seen first, because \<open>Object.values\<close> lists
  array-index keys before all others: the keys of the summaries are not the district keys
  in first-seen order.
\<close>

theorem districtSummary_first_seen_counterexample:
  "districtSummary double_int
     [example_page ''Hallim'' [example_vote ''Lee'' 100 5 105] 105 2 107,
      example_page ''1'' [] 7 0 7]
   = Inr [\<lparr>districtKey = ''1'', votesByCandidate = [], validTotal = 7, invalidTotal = 0,
            grandTotal = 7\<rparr>,
          \<lparr>districtKey = ''Hallim'',
            votesByCandidate = [(''Lee'', \<lparr>classified = 100, reconfirm = 5, total = 105\<rparr>)],
            validTotal = 105, invalidTotal = 2, grandTotal = 107\<rparr>] \<and>
   first_seen [''Hallim'', ''1''] = [''Hallim'', ''1''] \<and>
   map district [example_page ''Hallim'' [example_vote ''Lee'' 100 5 105] 105 2 107,
      example_page ''1'' [] 7 0 7] = [''Hallim'', ''1'']"
  by (simp add: aggregator_eval first_seen_def)

text \<open>
  Claim C2, amended. Take a results collection whose counts are in range (none negative,
  every sum at most \<open>2^53\<close>, so that the double additions are exact) and in which no
  district key is the name of a property of \<open>Object.prototype\<close>; the key of a page is
  its district, or \<open>Unknown\<close> when the district is empty. Then the aggregator returns
  one summary per distinct key. The keys that are decimal numerals of numbers below
  \<open>2^32 - 1\<close> come first, in ascending numeric order; the other keys follow in
  first-seen order. In each summary the valid, invalid and grand totals are the sums over
  the pages with that key, and for every candidate name that is not the name of a property
  of \<open>Object.prototype\<close> the sub-totals are the sums over all entries of that name on
  those pages (no sub-total when there is no such entry).
\<close>

theorem districtSummary_per_district:
  assumes "exact_counts fl" and "counts_in_range rs"
    and "list_all (\<lambda>p. (if district p = [] then ''Unknown'' else district p)
           \<notin> set object_prototype_keys) rs"
  shows "\<exists>ds idx. districtSummary fl rs = Inr ds \<and>
    distinct (map districtKey ds) \<and>
    set (map districtKey ds) = (\<lambda>p. if district p = [] then ''Unknown'' else district p) ` set rs \<and>
    map districtKey ds =
      map digits idx @
      filter (\<lambda>k. \<not> (\<exists>n<4294967295. k = digits n))
        (first_seen (map (\<lambda>p. if district p = [] then ''Unknown'' else district p) rs)) \<and>
    sorted_wrt (<) idx \<and> (\<forall>n \<in> set idx. n < 4294967295) \<and>
    (\<forall>s \<in> set ds.
       validTotal s = sum_list (map validVotes
         (filter (\<lambda>p. (if district p = [] then ''Unknown'' else district p) = districtKey s) rs)) \<and>
       invalidTotal s = sum_list (map invalidVotes
         (filter (\<lambda>p. (if district p = [] then ''Unknown'' else district p) = districtKey s) rs)) \<and>
       grandTotal s = sum_list (map pageTotalVotes
         (filter (\<lambda>p. (if district p = [] then ''Unknown'' else district p) = districtKey s) rs)) \<and>
       (\<forall>c. c \<notin> set object_prototype_keys \<longrightarrow>
          map_of (votesByCandidate s) c =
            (let entries = filter (\<lambda>v. candidateName v = c) (concat (map candidateVotes
               (filter (\<lambda>p. (if district p = [] then ''Unknown'' else district p) = districtKey s) rs)))
             in if entries = [] then None
                else Some \<lparr>classified = sum_list (map classifiedVotes entries),
                           reconfirm = sum_list (map reconfirmVotes entries),
                           total = sum_list (map totalVotes entries)\<rparr>)))"
proof -
  have k: "\<And>p. (if district p = [] then ''Unknown'' else district p) = district_key p"
    by (simp add: district_key_def)
  have own: "filter own_name (map district_key rs) = map district_key rs"
    using assms(3) unfolding k by (simp add: list_all_iff own_name_def)
  have nothrow: "\<not> throws rs"
    using assms(3) unfolding k by (auto simp: throws_set list_all_iff own_name_def)
  let ?ks = "first_seen (map district_key rs)"
  have ds: "districtSummary fl rs = Inr (map (summary_of rs) (js_key_order ?ks))"
    by (simp add: districtSummary_fl [OF assms(1,2)] districtSummary_eq nothrow own)
  have key: "map districtKey (map (summary_of rs) (js_key_order ?ks)) = js_key_order ?ks"
    by (simp add: comp_def summary_of_def)
  from js_key_order_shape [OF distinct_first_seen, of "map district_key rs"]
  obtain idx where idx:
    "js_key_order ?ks = map digits idx @ filter (\<lambda>k. \<not> (\<exists>n<4294967295. k = digits n)) ?ks"
    "sorted_wrt (<) idx" "\<forall>n \<in> set idx. n < 4294967295"
    by blast
  have each: "validTotal s = sum_list (map validVotes (filter (\<lambda>p. district_key p = districtKey s) rs)) \<and>
       invalidTotal s = sum_list (map invalidVotes (filter (\<lambda>p. district_key p = districtKey s) rs)) \<and>
       grandTotal s = sum_list (map pageTotalVotes (filter (\<lambda>p. district_key p = districtKey s) rs)) \<and>
       (\<forall>c. c \<notin> set object_prototype_keys \<longrightarrow>
          map_of (votesByCandidate s) c =
            (let entries = filter (\<lambda>v. candidateName v = c) (concat (map candidateVotes
               (filter (\<lambda>p. district_key p = districtKey s) rs)))
             in if entries = [] then None
                else Some \<lparr>classified = sum_list (map classifiedVotes entries),
                           reconfirm = sum_list (map reconfirmVotes entries),
                           total = sum_list (map totalVotes entries)\<rparr>))"
    if "s \<in> set (map (summary_of rs) (js_key_order ?ks))" for s
  proof -
    from that obtain key where "s = summary_of rs key" by auto
    then show ?thesis
      by (auto simp: summary_of_def map_of_votes_object pages_of_def votes_of_def
          candidate_sums_def votes_for_def own_name_def Let_def filter_empty_conv)
  qed
  show ?thesis
    unfolding k
  proof (intro exI conjI)
    show "districtSummary fl rs = Inr (map (summary_of rs) (js_key_order ?ks))" by (rule ds)
    show "distinct (map districtKey (map (summary_of rs) (js_key_order ?ks)))"
      unfolding key by (intro distinct_js_key_order distinct_first_seen)
    show "set (map districtKey (map (summary_of rs) (js_key_order ?ks))) = district_key ` set rs"
      unfolding key by (simp add: set_js_key_order set_first_seen)
    show "map districtKey (map (summary_of rs) (js_key_order ?ks)) =
        map digits idx @ filter (\<lambda>k. \<not> (\<exists>n<4294967295. k = digits n)) ?ks"
      unfolding key by (rule idx(1))
    show "sorted_wrt (<) idx" by (rule idx(2))
    show "\<forall>n \<in> set idx. n < 4294967295" by (rule idx(3))
    show "\<forall>s \<in> set (map (summary_of rs) (js_key_order ?ks)).
       validTotal s = sum_list (map validVotes (filter (\<lambda>p. district_key p = districtKey s) rs)) \<and>
       invalidTotal s = sum_list (map invalidVotes (filter (\<lambda>p. district_key p = districtKey s) rs)) \<and>
       grandTotal s = sum_list (map pageTotalVotes (filter (\<lambda>p. district_key p = districtKey s) rs)) \<and>
       (\<forall>c. c \<notin> set object_prototype_keys \<longrightarrow>
          map_of (votesByCandidate s) c =
            (let entries = filter (\<lambda>v. candidateName v = c) (concat (map candidateVotes
               (filter (\<lambda>p. district_key p = districtKey s) rs)))
             in if entries = [] then None
                else Some \<lparr>classified = sum_list (map classifiedVotes entries),
                           reconfirm = sum_list (map reconfirmVotes entries),
                           total = sum_list (map totalVotes entries)\<rparr>))"
      using each by (intro ballI)
  qed
qed

theorem districtSummary_per_district_witness:
  "exact_counts double_int \<and>
   counts_in_range
     [example_page ''Aewol'' [example_vote ''Lee'' 100 5 105] 105 2 107,
      example_page ''12'' [] 4 0 4,
      example_page [] [example_vote ''Kim'' 1 1 2] 7 0 7,
      example_page ''Aewol'' [example_vote ''Kim'' 3 0 3, example_vote ''Lee'' 50 1 51] 54 1 55,
      example_page ''7'' [] 9 0 9] \<and>
   districtSummary double_int
     [example_page ''Aewol'' [example_vote ''Lee'' 100 5 105] 105 2 107,
      example_page ''12'' [] 4 0 4,
      example_page [] [example_vote ''Kim'' 1 1 2] 7 0 7,
      example_page ''Aewol'' [example_vote ''Kim'' 3 0 3, example_vote ''Lee'' 50 1 51] 54 1 55,
      example_page ''7'' [] 9 0 9]
   = Inr [\<lparr>districtKey = ''7'', votesByCandidate = [], validTotal = 9, invalidTotal = 0,
            grandTotal = 9\<rparr>,
          \<lparr>districtKey = ''12'', votesByCandidate = [], validTotal = 4, invalidTotal = 0,
            grandTotal = 4\<rparr>,
          \<lparr>districtKey = ''Aewol'',
            votesByCandidate = [(''Lee'', \<lparr>classified = 150, reconfirm = 6, total = 156\<rparr>),
                                (''Kim'', \<lparr>classified = 3, reconfirm = 0, total = 3\<rparr>)],
            validTotal = 159, invalidTotal = 3, grandTotal = 162\<rparr>,
          \<lparr>districtKey = ''Unknown'',
            votesByCandidate = [(''Kim'', \<lparr>classified = 1, reconfirm = 1, total = 2\<rparr>)],
            validTotal = 7, invalidTotal = 0, grandTotal = 7\<rparr>]"
proof -
  let ?rs = "[example_page ''Aewol'' [example_vote ''Lee'' 100 5 105] 105 2 107,
      example_page ''12'' [] 4 0 4,
      example_page [] [example_vote ''Kim'' 1 1 2] 7 0 7,
      example_page ''Aewol'' [example_vote ''Kim'' 3 0 3, example_vote ''Lee'' 50 1 51] 54 1 55,
      example_page ''7'' [] 9 0 9]"
  have h1: "exact_counts double_int" by (rule exact_counts_double_int)
  have h2: "counts_in_range ?rs"
    by (simp add: counts_in_range_def votes_in_range_def example_page_def example_vote_def)
  have h3: "list_all (\<lambda>p. (if district p = [] then ''Unknown'' else district p)
           \<notin> set object_prototype_keys) ?rs"
    by (simp add: example_page_def object_prototype_keys_def)
  from districtSummary_per_district [OF h1 h2 h3] obtain ds where
    ds: "districtSummary double_int ?rs = Inr ds" and d: "distinct (map districtKey ds)"
    by blast
  have "districtSummary double_int ?rs
   = Inr [\<lparr>districtKey = ''7'', votesByCandidate = [], validTotal = 9, invalidTotal = 0,
            grandTotal = 9\<rparr>,
          \<lparr>districtKey = ''12'', votesByCandidate = [], validTotal = 4, invalidTotal = 0,
            grandTotal = 4\<rparr>,
          \<lparr>districtKey = ''Aewol'',
            votesByCandidate = [(''Lee'', \<lparr>classified = 150, reconfirm = 6, total = 156\<rparr>),
                                (''Kim'', \<lparr>classified = 3, reconfirm = 0, total = 3\<rparr>)],
            validTotal = 159, invalidTotal = 3, grandTotal = 162\<rparr>,
          \<lparr>districtKey = ''Unknown'',
            votesByCandidate = [(''Kim'', \<lparr>classified = 1, reconfirm = 1, total = 2\<rparr>)],
            validTotal = 7, invalidTotal = 0, grandTotal = 7\<rparr>]"
    by (simp add: aggregator_eval)
  with h1 h2 ds d show ?thesis by simp
qed




section \<open>CSV exporter: the text it builds\<close>

lemma foldl_append_concat: "foldl (\<lambda>acc x. acc @ f x) a xs = a @ concat (map f xs)"
  by (induction xs arbitrary: a) simp_all


lemma or_zero_eq: "or_zero field cv = (case cv of None \<Rightarrow> 0 | Some v \<Rightarrow> field v)"
  by (simp add: or_zero_def split: option.splits)




lemma find_vote_first:
  assumes "candidateVotes r = before @ cv # rest" and "candidateName cv = c"
    and "c \<notin> candidateName ` set before"
  shows "find_vote c r = Some cv"
proof -
  have "find (\<lambda>v. candidateName v = c) (before @ cv # rest) = Some cv"
    using assms(2,3) by (induction before) auto
  then show ?thesis by (simp add: find_vote_def assms(1))
qed

lemma csv_row_eq: "csv_row str r sel = row_start str r @ concat (map (row_cells str r) sel)"
  by (simp add: csv_row_def foldl_append_concat)

lemma row_cells_found:
  "find_vote c r = Some cv \<Longrightarrow>
     row_cells str r c =
       '','' @ str (classifiedVotes cv) @ '','' @ str (reconfirmVotes cv) @
       '','' @ str (totalVotes cv)"
  by (simp add: row_cells_def or_zero_eq)

lemma downloadCSV_eq:
  "rs \<noteq> [] \<Longrightarrow> sel \<noteq> [] \<Longrightarrow>
     downloadCSV fl str rs sel =
       Some \<lparr>blob = byte_order_mark @ csv_headers sel @ newline @
                concat (map (\<lambda>r. csv_row str r sel @ newline) rs) @
                csv_total_row fl str rs sel @ newline,
             download = file_name str (length sel)\<rparr>"
  by (simp add: downloadCSV_def foldl_append_concat)



lemma digits_not_Nil: "digits n \<noteq> []"
  by (subst digits.simps) simp

lemma digit_char_inj: "a < 10 \<Longrightarrow> b < 10 \<Longrightarrow> digit_char a = digit_char b \<Longrightarrow> a = b"
proof -
  assume a: "a < 10" and b: "b < 10" and eq: "digit_char a = digit_char b"
  have "distinct ''0123456789''" by simp
  moreover have "a < length ''0123456789''" "b < length ''0123456789''" using a b by simp_all
  ultimately show ?thesis using eq unfolding digit_char_def by (simp only: nth_eq_iff_index_eq)
qed

lemma digit_char_not_minus: "d < 10 \<Longrightarrow> digit_char d \<noteq> CHR ''-''"
proof -
  assume "d < 10"
  then have "digit_char d \<in> set ''0123456789''"
    unfolding digit_char_def by (intro nth_mem) simp
  then show ?thesis by auto
qed

lemma digits_inj: "digits n = digits m \<Longrightarrow> n = m"
proof (induction n arbitrary: m rule: digits.induct)
  case (1 n)
  show ?case
  proof (cases "n < 10")
    case True
    show ?thesis
    proof (cases "m < 10")
      case m: True
      from "1.prems" True m have "digit_char n = digit_char m"
        by (subst (asm) digits.simps, subst (asm) (2) digits.simps) simp
      with True m show ?thesis by (rule digit_char_inj)
    next
      case False
      from "1.prems" True False have "[digit_char n] = digits (m div 10) @ [digit_char (m mod 10)]"
        by (subst (asm) digits.simps, subst (asm) (2) digits.simps) simp
      then have "digits (m div 10) = []" by (metis append1_eq_conv append_Nil)
      then show ?thesis using digits_not_Nil by blast
    qed
  next
    case False
    show ?thesis
    proof (cases "m < 10")
      case True
      from "1.prems" True False have "digits (n div 10) @ [digit_char (n mod 10)] = [digit_char m]"
        by (subst (asm) digits.simps, subst (asm) (2) digits.simps) simp
      then have "digits (n div 10) = []" by (metis append1_eq_conv append_Nil)
      then show ?thesis using digits_not_Nil by blast
    next
      case m: False
      from "1.prems" m False have eq: "digits (n div 10) @ [digit_char (n mod 10)]
          = digits (m div 10) @ [digit_char (m mod 10)]"
        by (subst (asm) digits.simps, subst (asm) (2) digits.simps) simp
      then have "digits (n div 10) = digits (m div 10)"
        and c: "digit_char (n mod 10) = digit_char (m mod 10)" by simp_all
      with "1.IH" False have d: "n div 10 = m div 10" by blast
      have "n mod 10 = m mod 10" using c by (intro digit_char_inj) simp_all
      with d show ?thesis by (metis div_mult_mod_eq)
    qed
  qed
qed

lemma digits_no_minus: "CHR ''-'' \<notin> set (digits n)"
proof (induction n rule: digits.induct)
  case (1 n)
  show ?case
  proof (cases "n < 10")
    case True
    then show ?thesis using digit_char_not_minus [of n] by (subst digits.simps) auto
  next
    case False
    with 1 show ?thesis using digit_char_not_minus [of "n mod 10"] by (subst digits.simps) auto
  qed
qed

lemma number_string_inj: "number_string a = number_string b \<Longrightarrow> a = b"
proof -
  assume eq: "number_string a = number_string b"
  have hd_pos: "hd (digits n) \<noteq> CHR ''-''" for n
    using digits_no_minus [of n] digits_not_Nil [of n] by (metis hd_in_set)
  show ?thesis
  proof (cases "a < 0"; cases "b < 0")
    assume "a < 0" "b < 0"
    with eq have "digits (nat (- a)) = digits (nat (- b))" by (simp add: number_string_def)
    then have "nat (- a) = nat (- b)" by (rule digits_inj)
    with \<open>a < 0\<close> \<open>b < 0\<close> show ?thesis by simp
  next
    assume "a < 0" "\<not> b < 0"
    with eq have "CHR ''-'' # digits (nat (- a)) = digits (nat b)" by (simp add: number_string_def)
    then have "hd (digits (nat b)) = CHR ''-''" by (metis list.sel(1))
    with hd_pos show ?thesis by blast
  next
    assume "\<not> a < 0" "b < 0"
    with eq have "digits (nat a) = CHR ''-'' # digits (nat (- b))" by (simp add: number_string_def)
    then have "hd (digits (nat a)) = CHR ''-''" by (metis list.sel(1))
    with hd_pos show ?thesis by blast
  next
    assume "\<not> a < 0" "\<not> b < 0"
    with eq have "digits (nat a) = digits (nat b)" by (simp add: number_string_def)
    then have "nat a = nat b" by (rule digits_inj)
    with \<open>\<not> a < 0\<close> \<open>\<not> b < 0\<close> show ?thesis by simp
  qed
qed

section \<open>CSV exporter: properties\<close>

lemmas csv_eval =
  downloadCSV_def csv_headers_def csv_row_def csv_total_row_def row_start_def row_cells_def
  total_start_def total_cells_def find_vote_def or_zero_def number_string_def digits.simps
  digit_char_def example_page_def example_vote_def Let_def
  double_int_def round_nat_def ulp.simps

text \<open>
  Claim C4. Take the page record at any position \<open>j\<close> of the results and the selected
  candidate at any position \<open>k\<close> of the selection, and let that candidate have an entry
  on that record. Then the record's entries split into the entries before the first one of
  that name (none of them has the name), that first entry \<open>cv\<close>, and the rest, and the
  exported text is: the byte order mark, the header line, the lines of the records before
  \<open>j\<close>, then the line of record \<open>j\<close>, in which, after the five fixed fields and the
  cells of the candidates before \<open>k\<close>, come the stored \<open>classifiedVotes\<close>,
  \<open>reconfirmVotes\<close> and \<open>totalVotes\<close> of \<open>cv\<close> as printed, then the remaining cells,
  lines and the totals line. What is written in the last of the three columns is the
  stored \<open>totalVotes\<close>: where numbers print as decimal numerals, whenever it differs
  from the double \<open>classifiedVotes + reconfirmVotes\<close>, the text written differs from the
  text of that sum.
\<close>

theorem csv_row_total_verbatim:
  assumes "j < length rs" and "k < length sel"
    and "sel ! k \<in> candidateName ` set (candidateVotes (rs ! j))"
  shows "\<exists>before cv rest.
    candidateVotes (rs ! j) = before @ cv # rest \<and> candidateName cv = sel ! k \<and>
    sel ! k \<notin> candidateName ` set before \<and>
    map_option blob (downloadCSV fl str rs sel) =
      Some (byte_order_mark @ csv_headers sel @ newline @
        concat (map (\<lambda>r. csv_row str r sel @ newline) (take j rs)) @
        (row_start str (rs ! j) @ concat (map (row_cells str (rs ! j)) (take k sel)) @
           '','' @ str (classifiedVotes cv) @
           '','' @ str (reconfirmVotes cv) @
           '','' @ str (totalVotes cv) @
           concat (map (row_cells str (rs ! j)) (drop (Suc k) sel))) @ newline @
        concat (map (\<lambda>r. csv_row str r sel @ newline) (drop (Suc j) rs)) @
        csv_total_row fl str rs sel @ newline) \<and>
    (prints_decimal str \<longrightarrow> \<bar>totalVotes cv\<bar> < 1000000000000000000000 \<longrightarrow>
     \<bar>fl (classifiedVotes cv + reconfirmVotes cv)\<bar> < 1000000000000000000000 \<longrightarrow>
     totalVotes cv \<noteq> fl (classifiedVotes cv + reconfirmVotes cv) \<longrightarrow>
       str (totalVotes cv) \<noteq> str (fl (classifiedVotes cv + reconfirmVotes cv)))"
proof -
  from assms(3) have "\<exists>v \<in> set (candidateVotes (rs ! j)). candidateName v = sel ! k"
    by auto
  from split_list_first_prop [OF this] obtain before cv rest where split:
    "candidateVotes (rs ! j) = before @ cv # rest" "candidateName cv = sel ! k"
    "\<forall>v \<in> set before. candidateName v \<noteq> sel ! k"
    by blast
  have first: "sel ! k \<notin> candidateName ` set before"
    using split(3) by auto
  have found: "find_vote (sel ! k) (rs ! j) = Some cv"
    using split(1,2) first by (rule find_vote_first)
  have rs: "rs = take j rs @ rs ! j # drop (Suc j) rs"
    using assms(1) by (rule id_take_nth_drop)
  have sel: "sel = take k sel @ sel ! k # drop (Suc k) sel"
    using assms(2) by (rule id_take_nth_drop)
  have ne: "rs \<noteq> []" "sel \<noteq> []" using assms(1,2) by auto
  have "concat (map (row_cells str (rs ! j)) sel) =
      concat (map (row_cells str (rs ! j)) (take k sel)) @ row_cells str (rs ! j) (sel ! k) @
      concat (map (row_cells str (rs ! j)) (drop (Suc k) sel))"
    by (subst sel) simp
  then have row: "csv_row str (rs ! j) sel =
      row_start str (rs ! j) @ concat (map (row_cells str (rs ! j)) (take k sel)) @
        '','' @ str (classifiedVotes cv) @
        '','' @ str (reconfirmVotes cv) @
        '','' @ str (totalVotes cv) @
        concat (map (row_cells str (rs ! j)) (drop (Suc k) sel))"
    by (simp add: csv_row_eq row_cells_found [OF found])
  have "concat (map (\<lambda>r. csv_row str r sel @ newline) rs) =
      concat (map (\<lambda>r. csv_row str r sel @ newline) (take j rs)) @
      (csv_row str (rs ! j) sel @ newline) @
      concat (map (\<lambda>r. csv_row str r sel @ newline) (drop (Suc j) rs))"
    by (subst rs) simp
  then have written: "map_option blob (downloadCSV fl str rs sel) =
      Some (byte_order_mark @ csv_headers sel @ newline @
        concat (map (\<lambda>r. csv_row str r sel @ newline) (take j rs)) @
        (row_start str (rs ! j) @ concat (map (row_cells str (rs ! j)) (take k sel)) @
           '','' @ str (classifiedVotes cv) @
           '','' @ str (reconfirmVotes cv) @
           '','' @ str (totalVotes cv) @
           concat (map (row_cells str (rs ! j)) (drop (Suc k) sel))) @ newline @
        concat (map (\<lambda>r. csv_row str r sel @ newline) (drop (Suc j) rs)) @
        csv_total_row fl str rs sel @ newline)"
    unfolding row [symmetric] by (simp add: downloadCSV_eq [OF ne])
  have differ: "str a \<noteq> str b"
    if "prints_decimal str" "\<bar>a\<bar> < 1000000000000000000000" "\<bar>b\<bar> < 1000000000000000000000"
      "a \<noteq> b" for a b
  proof -
    have "str a = number_string a" "str b = number_string b"
      using that(1,2,3) by (auto simp: prints_decimal_def abs_less_iff)
    then show ?thesis using that(4) number_string_inj by auto
  qed
  show ?thesis
  proof (intro exI conjI)
    show "candidateVotes (rs ! j) = before @ cv # rest" by (rule split(1))
    show "candidateName cv = sel ! k" by (rule split(2))
    show "sel ! k \<notin> candidateName ` set before" by (rule first)
    show "map_option blob (downloadCSV fl str rs sel) =
      Some (byte_order_mark @ csv_headers sel @ newline @
        concat (map (\<lambda>r. csv_row str r sel @ newline) (take j rs)) @
        (row_start str (rs ! j) @ concat (map (row_cells str (rs ! j)) (take k sel)) @
           '','' @ str (classifiedVotes cv) @
           '','' @ str (reconfirmVotes cv) @
           '','' @ str (totalVotes cv) @
           concat (map (row_cells str (rs ! j)) (drop (Suc k) sel))) @ newline @
        concat (map (\<lambda>r. csv_row str r sel @ newline) (drop (Suc j) rs)) @
        csv_total_row fl str rs sel @ newline)"
      by (rule written)
    show "prints_decimal str \<longrightarrow> \<bar>totalVotes cv\<bar> < 1000000000000000000000 \<longrightarrow>
     \<bar>fl (classifiedVotes cv + reconfirmVotes cv)\<bar> < 1000000000000000000000 \<longrightarrow>
     totalVotes cv \<noteq> fl (classifiedVotes cv + reconfirmVotes cv) \<longrightarrow>
       str (totalVotes cv) \<noteq> str (fl (classifiedVotes cv + reconfirmVotes cv))"
      using differ by blast
  qed
qed

theorem csv_row_total_verbatim_witness:
  "map_option blob
     (downloadCSV double_int number_string
        [example_page ''Hallim'' [] 3 1 4,
         example_page ''Aewol'' [example_vote ''Kim'' 7 1 8, example_vote ''Lee'' 100 5 999,
            example_vote ''Lee'' 1 1 2] 105 2 107]
        [''Kim'', ''Lee'']) =
     Some (byte_order_mark @ fixed_headers @ header_cells ''Kim'' @ header_cells ''Lee'' @ newline @
       quote @ ''Hallim'' @ quote @ '','' @ quote @ label_early_in @ quote @
       '',3,1,4,0,0,0,0,0,0'' @ newline @
       quote @ ''Aewol'' @ quote @ '','' @ quote @ label_early_in @ quote @
       '',105,2,107,7,1,8,100,5,999'' @ newline @
       quote @ total_label @ quote @ '','' @ quote @ quote @
       '',108,3,111,7,1,8,100,5,999'' @ newline) \<and>
   number_string 999 \<noteq> number_string (double_int (100 + 5))"
proof -
  let ?rs = "[example_page ''Hallim'' [] 3 1 4,
         example_page ''Aewol'' [example_vote ''Kim'' 7 1 8, example_vote ''Lee'' 100 5 999,
            example_vote ''Lee'' 1 1 2] 105 2 107]"
  let ?sel = "[''Kim'', ''Lee'']"
  have h1: "1 < length ?rs" and h2: "1 < length ?sel" by simp_all
  have h3: "?sel ! 1 \<in> candidateName ` set (candidateVotes (?rs ! 1))"
    by (simp add: example_page_def example_vote_def)
  from csv_row_total_verbatim [OF h1 h2 h3, of double_int number_string]
  obtain before cv rest where
    split: "candidateVotes (?rs ! 1) = before @ cv # rest" "candidateName cv = ?sel ! 1"
      "?sel ! 1 \<notin> candidateName ` set before"
    and written: "map_option blob (downloadCSV double_int number_string ?rs ?sel) =
      Some (byte_order_mark @ csv_headers ?sel @ newline @
        concat (map (\<lambda>r. csv_row number_string r ?sel @ newline) (take 1 ?rs)) @
        (row_start number_string (?rs ! 1) @
           concat (map (row_cells number_string (?rs ! 1)) (take 1 ?sel)) @
           '','' @ number_string (classifiedVotes cv) @
           '','' @ number_string (reconfirmVotes cv) @
           '','' @ number_string (totalVotes cv) @
           concat (map (row_cells number_string (?rs ! 1)) (drop (Suc 1) ?sel))) @ newline @
        concat (map (\<lambda>r. csv_row number_string r ?sel @ newline) (drop (Suc 1) ?rs)) @
        csv_total_row double_int number_string ?rs ?sel @ newline)"
    and differ: "prints_decimal number_string \<longrightarrow> \<bar>totalVotes cv\<bar> < 1000000000000000000000 \<longrightarrow>
     \<bar>double_int (classifiedVotes cv + reconfirmVotes cv)\<bar> < 1000000000000000000000 \<longrightarrow>
     totalVotes cv \<noteq> double_int (classifiedVotes cv + reconfirmVotes cv) \<longrightarrow>
       number_string (totalVotes cv) \<noteq>
       number_string (double_int (classifiedVotes cv + reconfirmVotes cv))"
    by blast
  have cv: "cv = example_vote ''Lee'' 100 5 999"
    using split by (auto simp: example_page_def example_vote_def append_eq_Cons_conv
        Cons_eq_append_conv)
  have "number_string 999 \<noteq> number_string (double_int (100 + 5))"
    using differ prints_decimal_number_string unfolding cv
    by (simp add: example_vote_def double_int_def round_nat_def ulp.simps)
  moreover have "map_option blob (downloadCSV double_int number_string ?rs ?sel) =
     Some (byte_order_mark @ fixed_headers @ header_cells ''Kim'' @ header_cells ''Lee'' @ newline @
       quote @ ''Hallim'' @ quote @ '','' @ quote @ label_early_in @ quote @
       '',3,1,4,0,0,0,0,0,0'' @ newline @
       quote @ ''Aewol'' @ quote @ '','' @ quote @ label_early_in @ quote @
       '',105,2,107,7,1,8,100,5,999'' @ newline @
       quote @ total_label @ quote @ '','' @ quote @ quote @
       '',108,3,111,7,1,8,100,5,999'' @ newline)"
    unfolding written cv by (simp add: csv_eval)
  ultimately show ?thesis by simp
qed




section \<open>The two views of a record with a repeated candidate name\<close>



end
